theory Spec2Isabelle
  imports Main "HOL-Library.Word"
begin

section \<open>Shared conventions of the three containers\<close>

text \<open>
  The three containers (\<open>cinputs\<close>, \<open>cref\<close>, \<open>cbook\<close>) are C structs that own
  heap arrays. A struct is a record, an array is a list whose length is the number of
  allocated cells, and every function takes the struct and returns the updated one.
  Record fields carry a prefix (\<open>ci_\<close>, \<open>cr_\<close>, \<open>cb_\<close>) because the three
  structs share field names such as \<open>n\<close> and \<open>err\<close>.

  \<^item> \<open>size_t\<close> is a natural number; the places where the C arithmetic can wrap
    around are written with \<open>wrap\<close>. The platform is LP64: \<open>SIZE_MAX = 2^64 - 1\<close>.
  \<^item> \<open>unsigned int\<close> is a 32-bit word, \<open>int16_t\<close> a 16-bit word.
  \<^item> \<open>void *\<close> is an address, a natural number, and \<open>NULL\<close> is 0.
  \<^item> The outcome of each \<open>calloc\<close>/\<open>realloc\<close> is an argument of the function that
    calls it (\<open>True\<close>: the allocation succeeds), so every theorem holds for every
    behaviour of the allocator.
\<close>

type_synonym ptr = nat

definition NULL :: ptr where
  "NULL = 0"

definition SIZE_MAX :: nat where
  "SIZE_MAX = 2 ^ 64 - 1"

definition wrap :: "nat \<Rightarrow> nat" where
  "wrap v = v mod (SIZE_MAX + 1)"

text \<open>Subtraction and decrement on \<open>size_t\<close> (operands at most \<open>SIZE_MAX\<close>).\<close>

definition size_sub :: "nat \<Rightarrow> nat \<Rightarrow> nat" where
  "size_sub a b = wrap (a + (SIZE_MAX + 1) - b)"

definition UINT_MAX :: "32 word" where
  "UINT_MAX = - 1"

text \<open>
  Modelled from the spec: the enumeration \<open>enum cerr\<close> of \<open>cerr.h\<close> is not among the
  sources. The spec lists its values as NONE, INVALID, PARAM, OVERFLOW and MEMORY; the
  code tests \<open>if (x->err)\<close>, so \<open>CERR_NONE\<close> is the zero value.
\<close>

datatype cerr = CERR_NONE | CERR_INVALID | CERR_PARAM | CERR_OVERFLOW | CERR_MEMORY

text \<open>
  Modelled from the spec: \<open>safe_mul\<close> of \<open>safe.h\<close> is not among the sources. The spec
  describes it as the overflow-checked multiplication used by every growth path: given an
  element count and an element size it reports whether the product exceeds the platform
  size limit. The result is \<open>None\<close> when the product overflows (the C function returns
  false) and the product otherwise (the C function returns true and stores the product
  through its first argument when that is not \<open>NULL\<close>).
\<close>

definition safe_mul :: "nat \<Rightarrow> nat \<Rightarrow> nat option" where
  "safe_mul a b = (if a * b \<le> SIZE_MAX then Some (a * b) else None)"

text \<open>
  \<open>realloc\<close> keeps the cells that fit in the new size. The content of fresh cells is
  indeterminate in C; the model fills them with a fixed value \<open>fill\<close>, and no theorem
  below depends on which.
\<close>

definition realloc_cells :: "'a \<Rightarrow> 'a list \<Rightarrow> nat \<Rightarrow> 'a list" where
  "realloc_cells fill cells k = take k cells @ replicate (k - length cells) fill"

text \<open>
  \<open>memmove (a + dst, a + src, cnt * sizeof *a)\<close> inside one array: the \<open>cnt\<close> cells
  from \<open>src\<close> are copied to \<open>dst\<close>, every other cell keeps its value.
\<close>

definition memmove_cells :: "'a list \<Rightarrow> nat \<Rightarrow> nat \<Rightarrow> nat \<Rightarrow> 'a list" where
  "memmove_cells cells dst src cnt =
     take dst cells @ take cnt (drop src cells) @ drop (dst + cnt) cells"

text \<open>
  The linear scans of \<open>cinputs_find\<close> and \<open>cref_find\<close>:
  \<^verbatim>\<open>for (size_t i = 0; i < n; i++) if (slots[i].key == key) return i;\<close>
  over the cells still to visit, with the index of the first of them.
\<close>

fun scan :: "('a \<Rightarrow> bool) \<Rightarrow> 'a list \<Rightarrow> nat \<Rightarrow> nat option" where
  "scan P [] i = None"
| "scan P (c # cs) i = (if P c then Some i else scan P cs (Suc i))"

section \<open>Slot table (\<open>cinputs\<close>)\<close>

record islot =
  islot_id :: "32 word"
  islot_x :: "16 word"
  islot_y :: "16 word"
  islot_ptr :: ptr

record cinputs =
  ci_slots :: "islot list"
  ci_n :: nat
  ci_n_alloc :: nat
  ci_default_ptr :: ptr
  ci_err :: cerr

definition sizeof_islot :: nat where
  "sizeof_islot = 16"

definition islot_fill :: islot where
  "islot_fill = \<lparr>islot_id = 0, islot_x = 0, islot_y = 0, islot_ptr = NULL\<rparr>"

definition cinputs_placeholder_instance :: cinputs where
  "cinputs_placeholder_instance =
     \<lparr>ci_slots = [], ci_n = 0, ci_n_alloc = 0, ci_default_ptr = NULL, ci_err = CERR_INVALID\<rparr>"

text \<open>The struct as \<open>calloc (1, sizeof (cinputs))\<close> returns it: all fields zero.\<close>

definition cinputs_calloc :: cinputs where
  "cinputs_calloc =
     \<lparr>ci_slots = [], ci_n = 0, ci_n_alloc = 0, ci_default_ptr = NULL, ci_err = CERR_NONE\<rparr>"

text \<open>The static \<open>resize\<close>; \<open>mem\<close> is the outcome of its \<open>realloc\<close>.\<close>

definition resize :: "bool \<Rightarrow> cinputs \<Rightarrow> nat \<Rightarrow> cinputs \<times> bool" where
  "resize mem inputs k =
     (if k = 0 then (inputs\<lparr>ci_err := CERR_PARAM\<rparr>, False)
      else if safe_mul k sizeof_islot = None then (inputs\<lparr>ci_err := CERR_OVERFLOW\<rparr>, False)
      else if \<not> mem then (inputs\<lparr>ci_err := CERR_MEMORY\<rparr>, False)
      else (inputs\<lparr>ci_n := (if k < ci_n inputs then k else ci_n inputs),
                    ci_n_alloc := k,
                    ci_slots := realloc_cells islot_fill (ci_slots inputs) k\<rparr>, True))"

definition cinputs_clear :: "cinputs \<Rightarrow> cinputs" where
  "cinputs_clear inputs =
     (if ci_err inputs \<noteq> CERR_NONE then inputs else inputs\<lparr>ci_n := 0\<rparr>)"

text \<open>
  \<open>cinputs_create\<close>: \<open>mem_obj\<close> is the outcome of the \<open>calloc\<close> of the struct,
  \<open>mem\<close> that of the \<open>realloc\<close> in \<open>resize\<close>.
\<close>

definition cinputs_create :: "bool \<Rightarrow> bool \<Rightarrow> nat \<Rightarrow> cinputs" where
  "cinputs_create mem_obj mem max_inputs =
     (if \<not> mem_obj then cinputs_placeholder_instance
      else case resize mem cinputs_calloc max_inputs of
        (inputs, ok) \<Rightarrow>
          if \<not> ok then cinputs_placeholder_instance
          else inputs\<lparr>ci_default_ptr := NULL, ci_n := 0, ci_err := CERR_NONE\<rparr>)"

text \<open>
  \<open>cinputs_clone\<close>: the new struct receives the first \<open>n\<close> slots of the source by
  \<open>memcpy\<close>.
\<close>

definition cinputs_clone :: "bool \<Rightarrow> bool \<Rightarrow> cinputs \<Rightarrow> cinputs" where
  "cinputs_clone mem_obj mem inputs =
     (if ci_err inputs \<noteq> CERR_NONE \<or> \<not> mem_obj then cinputs_placeholder_instance
      else case resize mem cinputs_calloc (ci_n_alloc inputs) of
        (inputs_new, ok) \<Rightarrow>
          if \<not> ok then cinputs_placeholder_instance
          else inputs_new\<lparr>ci_slots := take (ci_n inputs) (ci_slots inputs)
                                         @ drop (ci_n inputs) (ci_slots inputs_new),
                          ci_default_ptr := ci_default_ptr inputs,
                          ci_n := ci_n inputs,
                          ci_err := CERR_NONE\<rparr>)"

definition cinputs_error :: "cinputs \<Rightarrow> cerr" where
  "cinputs_error inputs = ci_err inputs"

text \<open>
  \<open>cinputs_find\<close> returns whether the id is found, and the index it stores through its
  \<open>index\<close> argument (\<open>None\<close>: nothing is stored).
\<close>

definition cinputs_find :: "cinputs \<Rightarrow> 32 word \<Rightarrow> bool \<times> nat option" where
  "cinputs_find inputs k =
     (if ci_err inputs \<noteq> CERR_NONE then (False, None)
      else case scan (\<lambda>c. islot_id c = k) (take (ci_n inputs) (ci_slots inputs)) 0 of
        Some i \<Rightarrow> (True, Some i)
      | None \<Rightarrow> (False, None))"

definition cinputs_id :: "cinputs \<Rightarrow> nat \<Rightarrow> 32 word" where
  "cinputs_id inputs index =
     (if ci_err inputs \<noteq> CERR_NONE \<or> index \<ge> ci_n inputs then 0
      else islot_id (ci_slots inputs ! index))"

definition cinputs_load :: "cinputs \<Rightarrow> nat" where
  "cinputs_load inputs = (if ci_err inputs \<noteq> CERR_NONE then 0 else ci_n inputs)"

definition cinputs_ptr :: "cinputs \<Rightarrow> nat \<Rightarrow> ptr" where
  "cinputs_ptr inputs index =
     (if ci_err inputs \<noteq> CERR_NONE \<or> index \<ge> ci_n inputs then ci_default_ptr inputs
      else islot_ptr (ci_slots inputs ! index))"

definition cinputs_pull_index :: "cinputs \<Rightarrow> nat \<Rightarrow> cinputs" where
  "cinputs_pull_index inputs index =
     (if ci_err inputs \<noteq> CERR_NONE \<or> index \<ge> ci_n inputs then inputs
      else inputs\<lparr>ci_n := ci_n inputs - 1,
                   ci_slots := memmove_cells (ci_slots inputs) index (index + 1)
                                 (ci_n inputs - 1 - index)\<rparr>)"

definition cinputs_pull_id :: "cinputs \<Rightarrow> 32 word \<Rightarrow> cinputs" where
  "cinputs_pull_id inputs k =
     (case cinputs_find inputs k of
        (True, Some index) \<Rightarrow> cinputs_pull_index inputs index
      | _ \<Rightarrow> inputs)"

text \<open>
  \<open>cinputs_push\<close> takes \<open>x\<close> and \<open>y\<close> as \<open>int\<close> and stores them in \<open>int16_t\<close> fields:
  the conversion keeps the low 16 bits.
\<close>

definition cinputs_push :: "cinputs \<Rightarrow> 32 word \<Rightarrow> int \<Rightarrow> int \<Rightarrow> ptr \<Rightarrow> cinputs" where
  "cinputs_push inputs k x y p =
     (if ci_err inputs \<noteq> CERR_NONE then inputs
      else let inputs1 = cinputs_pull_id inputs k in
        if ci_n inputs1 \<ge> ci_n_alloc inputs1 then inputs1
        else inputs1\<lparr>ci_slots := (ci_slots inputs1)
                        [ci_n inputs1 := \<lparr>islot_id = k, islot_x = word_of_int x,
                                           islot_y = word_of_int y, islot_ptr = p\<rparr>],
                      ci_n := ci_n inputs1 + 1\<rparr>)"

definition cinputs_repair :: "cinputs \<Rightarrow> cinputs" where
  "cinputs_repair inputs =
     (if ci_err inputs \<noteq> CERR_INVALID then inputs\<lparr>ci_err := CERR_NONE\<rparr> else inputs)"

definition cinputs_resize :: "bool \<Rightarrow> cinputs \<Rightarrow> nat \<Rightarrow> cinputs" where
  "cinputs_resize mem inputs max_inputs =
     (if ci_err inputs \<noteq> CERR_NONE then inputs else fst (resize mem inputs max_inputs))"

definition cinputs_set_default_ptr :: "cinputs \<Rightarrow> ptr \<Rightarrow> cinputs" where
  "cinputs_set_default_ptr inputs p =
     (if ci_err inputs \<noteq> CERR_NONE then inputs else inputs\<lparr>ci_default_ptr := p\<rparr>)"

definition cinputs_x :: "cinputs \<Rightarrow> nat \<Rightarrow> 16 word" where
  "cinputs_x inputs index =
     (if ci_err inputs \<noteq> CERR_NONE \<or> index \<ge> ci_n inputs then 0
      else islot_x (ci_slots inputs ! index))"

definition cinputs_y :: "cinputs \<Rightarrow> nat \<Rightarrow> 16 word" where
  "cinputs_y inputs index =
     (if ci_err inputs \<noteq> CERR_NONE \<or> index \<ge> ci_n inputs then 0
      else islot_y (ci_slots inputs ! index))"

section \<open>Reference registry (\<open>cref\<close>)\<close>

record rslot =
  rslot_ptr :: ptr
  rslot_n_ref :: "32 word"

record cref =
  cr_slots :: "rslot list"
  cr_n :: nat
  cr_n_alloc :: nat
  cr_default_ptr :: ptr
  cr_err :: cerr

definition sizeof_rslot :: nat where
  "sizeof_rslot = 16"

definition rslot_fill :: rslot where
  "rslot_fill = \<lparr>rslot_ptr = NULL, rslot_n_ref = 0\<rparr>"

definition cref_placeholder_instance :: cref where
  "cref_placeholder_instance =
     \<lparr>cr_slots = [], cr_n = 0, cr_n_alloc = 0, cr_default_ptr = NULL, cr_err = CERR_INVALID\<rparr>"

definition cref_calloc :: cref where
  "cref_calloc =
     \<lparr>cr_slots = [], cr_n = 0, cr_n_alloc = 0, cr_default_ptr = NULL, cr_err = CERR_NONE\<rparr>"

text \<open>The static \<open>grow\<close> of the registry; \<open>mem\<close> is the outcome of its \<open>realloc\<close>.\<close>

definition grow_cref :: "bool \<Rightarrow> cref \<Rightarrow> nat \<Rightarrow> cref \<times> bool" where
  "grow_cref mem ref k =
     (if k \<le> cr_n_alloc ref then (ref, True)
      else if safe_mul k sizeof_rslot = None then (ref\<lparr>cr_err := CERR_OVERFLOW\<rparr>, False)
      else if \<not> mem then (ref\<lparr>cr_err := CERR_MEMORY\<rparr>, False)
      else (ref\<lparr>cr_n_alloc := k,
                 cr_slots := realloc_cells rslot_fill (cr_slots ref) k\<rparr>, True))"

text \<open>
  The static \<open>pull\<close>. Its callers pass \<open>i < n\<close>, so the decrement \<open>--ref->n\<close> does
  not wrap.
\<close>

definition pull :: "cref \<Rightarrow> nat \<Rightarrow> cref" where
  "pull ref i =
     ref\<lparr>cr_n := cr_n ref - 1,
         cr_slots := memmove_cells (cr_slots ref) i (i + 1) (cr_n ref - 1 - i)\<rparr>"

definition cref_clear :: "cref \<Rightarrow> cref" where
  "cref_clear ref = (if cr_err ref \<noteq> CERR_NONE then ref else ref\<lparr>cr_n := 0\<rparr>)"

definition cref_clone :: "bool \<Rightarrow> bool \<Rightarrow> cref \<Rightarrow> cref" where
  "cref_clone mem_obj mem ref =
     (if cr_err ref \<noteq> CERR_NONE \<or> \<not> mem_obj then cref_placeholder_instance
      else case grow_cref mem cref_calloc (cr_n_alloc ref) of
        (ref_new, ok) \<Rightarrow>
          if \<not> ok then cref_placeholder_instance
          else ref_new\<lparr>cr_slots := take (cr_n ref) (cr_slots ref)
                                      @ drop (cr_n ref) (cr_slots ref_new),
                       cr_n := cr_n ref,
                       cr_default_ptr := cr_default_ptr ref,
                       cr_err := CERR_NONE\<rparr>)"

definition cref_count :: "cref \<Rightarrow> nat \<Rightarrow> 32 word" where
  "cref_count ref index =
     (if cr_err ref \<noteq> CERR_NONE \<or> index \<ge> cr_n ref then 0
      else rslot_n_ref (cr_slots ref ! index))"

definition cref_create :: "bool \<Rightarrow> bool \<Rightarrow> cref" where
  "cref_create mem_obj mem =
     (if \<not> mem_obj then cref_placeholder_instance
      else case grow_cref mem cref_calloc 1 of
        (ref, ok) \<Rightarrow>
          if \<not> ok then cref_placeholder_instance
          else ref\<lparr>cr_n := 0, cr_default_ptr := NULL, cr_err := CERR_NONE\<rparr>)"

definition cref_error :: "cref \<Rightarrow> cerr" where
  "cref_error ref = cr_err ref"

text \<open>
  \<open>cref_find\<close> returns the count of the first slot that holds the pointer, and the index
  it stores through its \<open>index\<close> argument (\<open>None\<close>: nothing is stored).
\<close>

definition cref_find :: "cref \<Rightarrow> ptr \<Rightarrow> 32 word \<times> nat option" where
  "cref_find ref p =
     (if cr_err ref \<noteq> CERR_NONE then (0, None)
      else case scan (\<lambda>c. rslot_ptr c = p) (take (cr_n ref) (cr_slots ref)) 0 of
        Some i \<Rightarrow> (rslot_n_ref (cr_slots ref ! i), Some i)
      | None \<Rightarrow> (0, None))"

definition cref_length :: "cref \<Rightarrow> nat" where
  "cref_length ref = (if cr_err ref \<noteq> CERR_NONE then 0 else cr_n ref)"

definition cref_prealloc :: "bool \<Rightarrow> cref \<Rightarrow> nat \<Rightarrow> cref" where
  "cref_prealloc mem ref slots_number =
     (if cr_err ref \<noteq> CERR_NONE then ref else fst (grow_cref mem ref slots_number))"

definition cref_ptr :: "cref \<Rightarrow> nat \<Rightarrow> ptr" where
  "cref_ptr ref index =
     (if cr_err ref \<noteq> CERR_NONE \<or> index \<ge> cr_n ref then cr_default_ptr ref
      else rslot_ptr (cr_slots ref ! index))"

text \<open>
  \<open>cref_pull_index\<close>: the test \<open>--ref->slots[index].n_ref > 0\<close> decrements the count
  (an \<open>unsigned int\<close>) before it compares.
\<close>

definition cref_pull_index :: "cref \<Rightarrow> nat \<Rightarrow> cref" where
  "cref_pull_index ref index =
     (if cr_err ref \<noteq> CERR_NONE \<or> index \<ge> cr_n ref then ref
      else let c = rslot_n_ref (cr_slots ref ! index) - 1;
               ref1 = ref\<lparr>cr_slots := (cr_slots ref)
                             [index := (cr_slots ref ! index)\<lparr>rslot_n_ref := c\<rparr>]\<rparr>
           in if c > 0 then ref1 else pull ref1 index)"

text \<open>
  \<open>cref_pull_ptr\<close>, \<open>cref_purge_ptr\<close> and \<open>cref_push\<close> declare \<open>size_t i = 0\<close> and pass
  its address to \<open>cref_find\<close>.
\<close>

definition cref_pull_ptr :: "cref \<Rightarrow> ptr \<Rightarrow> cref" where
  "cref_pull_ptr ref p =
     (case cref_find ref p of
        (c, w) \<Rightarrow>
          let i = (case w of Some j \<Rightarrow> j | None \<Rightarrow> 0)
          in if c > 0 then cref_pull_index ref i else ref)"

definition cref_purge_index :: "cref \<Rightarrow> nat \<Rightarrow> cref" where
  "cref_purge_index ref index =
     (if cr_err ref \<noteq> CERR_NONE \<or> index \<ge> cr_n ref then ref else pull ref index)"

definition cref_purge_ptr :: "cref \<Rightarrow> ptr \<Rightarrow> cref" where
  "cref_purge_ptr ref p =
     (case cref_find ref p of
        (c, w) \<Rightarrow>
          let i = (case w of Some j \<Rightarrow> j | None \<Rightarrow> 0)
          in if c > 0 then cref_purge_index ref i else ref)"

definition cref_push :: "bool \<Rightarrow> cref \<Rightarrow> ptr \<Rightarrow> cref" where
  "cref_push mem ref p =
     (if cr_err ref \<noteq> CERR_NONE then ref
      else case cref_find ref p of
        (c, w) \<Rightarrow>
          let i = (case w of Some j \<Rightarrow> j | None \<Rightarrow> 0)
          in if c > 0 then
               (if rslot_n_ref (cr_slots ref ! i) = UINT_MAX
                then ref\<lparr>cr_err := CERR_OVERFLOW\<rparr>
                else ref\<lparr>cr_slots := (cr_slots ref)
                           [i := (cr_slots ref ! i)
                                   \<lparr>rslot_n_ref := rslot_n_ref (cr_slots ref ! i) + 1\<rparr>]\<rparr>)
             else
               (case (if cr_n ref \<ge> cr_n_alloc ref
                      then (if safe_mul (cr_n_alloc ref) 2 = None
                            then (ref\<lparr>cr_err := CERR_OVERFLOW\<rparr>, False)
                            else grow_cref mem ref (wrap (cr_n_alloc ref * 2)))
                      else (ref, True)) of
                  (ref1, ok) \<Rightarrow>
                    if \<not> ok then ref1
                    else ref1\<lparr>cr_slots := (cr_slots ref1)
                                 [cr_n ref1 := \<lparr>rslot_ptr = p, rslot_n_ref = 1\<rparr>],
                               cr_n := cr_n ref1 + 1\<rparr>))"

definition cref_repair :: "cref \<Rightarrow> cref" where
  "cref_repair ref =
     (if cr_err ref \<noteq> CERR_INVALID then ref\<lparr>cr_err := CERR_NONE\<rparr> else ref)"

definition cref_set_default_ptr :: "cref \<Rightarrow> ptr \<Rightarrow> cref" where
  "cref_set_default_ptr ref p =
     (if cr_err ref \<noteq> CERR_NONE then ref else ref\<lparr>cr_default_ptr := p\<rparr>)"

section \<open>String arena (\<open>cbook\<close>)\<close>

record cbook =
  cb_chars :: "char list"
  cb_words :: "nat list"
  cb_groups :: "nat list"
  cb_n_chars :: nat
  cb_n_words :: nat
  cb_n_groups :: nat
  cb_n_alloc_chars :: nat
  cb_n_alloc_words :: nat
  cb_n_alloc_groups :: nat
  cb_new_group :: bool
  cb_err :: cerr

definition sizeof_size_t :: nat where
  "sizeof_size_t = 8"

definition NUL :: char where
  "NUL = CHR 0x00"

definition cbook_placeholder_instance :: cbook where
  "cbook_placeholder_instance =
     \<lparr>cb_chars = [], cb_words = [], cb_groups = [],
      cb_n_chars = 0, cb_n_words = 0, cb_n_groups = 0,
      cb_n_alloc_chars = 0, cb_n_alloc_words = 0, cb_n_alloc_groups = 0,
      cb_new_group = False, cb_err = CERR_INVALID\<rparr>"

definition cbook_calloc :: cbook where
  "cbook_calloc =
     \<lparr>cb_chars = [], cb_words = [], cb_groups = [],
      cb_n_chars = 0, cb_n_words = 0, cb_n_groups = 0,
      cb_n_alloc_chars = 0, cb_n_alloc_words = 0, cb_n_alloc_groups = 0,
      cb_new_group = False, cb_err = CERR_NONE\<rparr>"

text \<open>
  The static \<open>group_size\<close>. The comparison \<open>i == book->n_groups - 1\<close> is reached with
  \<open>i < n_groups\<close> only, so that subtraction does not wrap.
\<close>

definition group_size :: "cbook \<Rightarrow> nat \<Rightarrow> nat" where
  "group_size book i =
     (if i \<ge> cb_n_groups book then 0
      else if i = cb_n_groups book - 1 then size_sub (cb_n_words book) (cb_groups book ! i)
      else size_sub (cb_groups book ! (i + 1)) (cb_groups book ! i))"

text \<open>
  The static \<open>grow\<close> of the arena; \<open>mem\<close> holds the outcomes of its three \<open>realloc\<close>
  calls (chars, words, groups), each consulted only when that call is made.
\<close>

definition grow_cbook ::
  "bool \<times> bool \<times> bool \<Rightarrow> cbook \<Rightarrow> nat \<Rightarrow> nat \<Rightarrow> nat \<Rightarrow> cbook \<times> bool" where
  "grow_cbook mem book k_chars k_words k_groups =
     (case mem of (mem_c, mem_w, mem_g) \<Rightarrow>
        if safe_mul k_words sizeof_size_t = None \<or> safe_mul k_groups sizeof_size_t = None
        then (book\<lparr>cb_err := CERR_OVERFLOW\<rparr>, False)
        else if k_chars > cb_n_alloc_chars book \<and> \<not> mem_c
        then (book\<lparr>cb_err := CERR_MEMORY\<rparr>, False)
        else let book1 = (if k_chars > cb_n_alloc_chars book
                          then book\<lparr>cb_n_alloc_chars := k_chars,
                                    cb_chars := realloc_cells NUL (cb_chars book) k_chars\<rparr>
                          else book)
          in if k_words > cb_n_alloc_words book1 \<and> \<not> mem_w
             then (book1\<lparr>cb_err := CERR_MEMORY\<rparr>, False)
             else let book2 = (if k_words > cb_n_alloc_words book1
                               then book1\<lparr>cb_n_alloc_words := k_words,
                                          cb_words := realloc_cells 0 (cb_words book1) k_words\<rparr>
                               else book1)
               in if k_groups > cb_n_alloc_groups book2 \<and> \<not> mem_g
                  then (book2\<lparr>cb_err := CERR_MEMORY\<rparr>, False)
                  else (if k_groups > cb_n_alloc_groups book2
                        then book2\<lparr>cb_n_alloc_groups := k_groups,
                                   cb_groups := realloc_cells 0 (cb_groups book2) k_groups\<rparr>
                        else book2, True))"

definition cbook_clear :: "cbook \<Rightarrow> cbook" where
  "cbook_clear book =
     (if cb_err book \<noteq> CERR_NONE then book
      else book\<lparr>cb_n_groups := 0, cb_n_words := 0, cb_n_chars := 0, cb_new_group := True\<rparr>)"

definition cbook_clone :: "bool \<Rightarrow> bool \<times> bool \<times> bool \<Rightarrow> cbook \<Rightarrow> cbook" where
  "cbook_clone mem_obj mem book =
     (if cb_err book \<noteq> CERR_NONE \<or> \<not> mem_obj then cbook_placeholder_instance
      else case grow_cbook mem cbook_calloc (cb_n_alloc_chars book) (cb_n_alloc_words book)
                  (cb_n_alloc_groups book) of
        (book_new, ok) \<Rightarrow>
          if \<not> ok then cbook_placeholder_instance
          else book_new\<lparr>cb_chars := take (cb_n_chars book) (cb_chars book)
                                       @ drop (cb_n_chars book) (cb_chars book_new),
                        cb_words := take (cb_n_words book) (cb_words book)
                                       @ drop (cb_n_words book) (cb_words book_new),
                        cb_groups := take (cb_n_groups book) (cb_groups book)
                                       @ drop (cb_n_groups book) (cb_groups book_new),
                        cb_n_chars := cb_n_chars book,
                        cb_n_words := cb_n_words book,
                        cb_n_groups := cb_n_groups book,
                        cb_new_group := cb_new_group book,
                        cb_err := CERR_NONE\<rparr>)"

definition cbook_create :: "bool \<Rightarrow> bool \<times> bool \<times> bool \<Rightarrow> cbook" where
  "cbook_create mem_obj mem =
     (if \<not> mem_obj then cbook_placeholder_instance
      else case grow_cbook mem cbook_calloc 1 1 1 of
        (book, ok) \<Rightarrow>
          if \<not> ok then cbook_placeholder_instance
          else book\<lparr>cb_n_chars := 0, cb_n_words := 0, cb_n_groups := 0,
                    cb_new_group := True, cb_err := CERR_NONE\<rparr>)"

definition cbook_error :: "cbook \<Rightarrow> cerr" where
  "cbook_error book = cb_err book"

definition cbook_group_length :: "cbook \<Rightarrow> nat \<Rightarrow> nat" where
  "cbook_group_length book group_index =
     (if cb_err book \<noteq> CERR_NONE then 0 else group_size book group_index)"

definition cbook_groups_number :: "cbook \<Rightarrow> nat" where
  "cbook_groups_number book = (if cb_err book \<noteq> CERR_NONE then 0 else cb_n_groups book)"

definition cbook_length :: "cbook \<Rightarrow> nat" where
  "cbook_length book = (if cb_err book \<noteq> CERR_NONE then 0 else cb_n_chars book)"

definition cbook_pop_group :: "cbook \<Rightarrow> cbook" where
  "cbook_pop_group book =
     (if cb_err book \<noteq> CERR_NONE \<or> cb_n_groups book = 0 then book
      else let g = cb_n_groups book - 1;
               book1 = book\<lparr>cb_n_groups := g,
                             cb_n_chars := cb_words book ! (cb_groups book ! g),
                             cb_n_words := cb_groups book ! g\<rparr>
           in if cb_n_groups book1 = 0 then book1\<lparr>cb_new_group := True\<rparr> else book1)"

text \<open>
  The body of \<open>cbook_pop_word\<close> after its guard, with \<open>g\<close> the value that the read of
  \<open>book->groups[book->n_groups - 1]\<close> yields. The decrement \<open>--book->n_groups\<close> is on
  \<open>size_t\<close> and wraps.
\<close>

definition cbook_pop_word_read :: "nat \<Rightarrow> cbook \<Rightarrow> cbook" where
  "cbook_pop_word_read g book =
     (let last = size_sub (cb_n_groups book) 1;
          book1 =
            (if g = cb_n_words book - 1
             then (if last = 0
                   then book\<lparr>cb_n_groups := last, cb_new_group := True\<rparr>
                   else book\<lparr>cb_n_groups := last\<rparr>)
             else book)
      in book1\<lparr>cb_n_words := cb_n_words book1 - 1,
                cb_n_chars := cb_words book1 ! (cb_n_words book1 - 1)\<rparr>)"

text \<open>
  \<open>cbook_pop_word\<close> reads \<open>book->groups[book->n_groups - 1]\<close> without testing
  \<open>n_groups\<close>. With \<open>n_groups = 0\<close> the index wraps to \<open>SIZE_MAX\<close>, which is outside
  the array: the read has no defined value, and the function has no result (\<open>None\<close>).
  What the program does when it goes on with a value \<open>g\<close> found there is
  \<open>cbook_pop_word_read g\<close>.
\<close>

definition cbook_pop_word :: "cbook \<Rightarrow> cbook option" where
  "cbook_pop_word book =
     (if cb_err book \<noteq> CERR_NONE \<or> cb_n_words book = 0 then Some book
      else let last = size_sub (cb_n_groups book) 1
        in if last \<ge> length (cb_groups book) then None
           else Some (cbook_pop_word_read (cb_groups book ! last) book))"

definition cbook_prealloc ::
  "bool \<times> bool \<times> bool \<Rightarrow> cbook \<Rightarrow> nat \<Rightarrow> nat \<Rightarrow> nat \<Rightarrow> cbook" where
  "cbook_prealloc mem book bytes_number words_number groups_number =
     (if cb_err book \<noteq> CERR_NONE then book
      else fst (grow_cbook mem book bytes_number words_number groups_number))"

definition cbook_prepare_new_group :: "cbook \<Rightarrow> cbook" where
  "cbook_prepare_new_group book =
     (if cb_err book \<noteq> CERR_NONE then book else book\<lparr>cb_new_group := True\<rparr>)"

definition cbook_repair :: "cbook \<Rightarrow> cbook" where
  "cbook_repair book =
     (if cb_err book \<noteq> CERR_INVALID then book\<lparr>cb_err := CERR_NONE\<rparr> else book)"

definition cbook_undo_new_group :: "cbook \<Rightarrow> cbook" where
  "cbook_undo_new_group book =
     (if cb_err book \<noteq> CERR_NONE \<or> cb_n_groups book = 0 then book
      else book\<lparr>cb_new_group := False\<rparr>)"

text \<open>
  A \<open>const char *\<close> result is the C string it points to: the bytes from that position up
  to the first NUL.
\<close>

definition c_string_at :: "char list \<Rightarrow> nat \<Rightarrow> string" where
  "c_string_at cells off = takeWhile (\<lambda>c. c \<noteq> NUL) (drop off cells)"

definition cbook_word :: "cbook \<Rightarrow> nat \<Rightarrow> string" where
  "cbook_word book word_index =
     (if cb_err book \<noteq> CERR_NONE \<or> word_index \<ge> cb_n_words book then []
      else c_string_at (cb_chars book) (cb_words book ! word_index))"

definition cbook_word_in_group :: "cbook \<Rightarrow> nat \<Rightarrow> nat \<Rightarrow> string" where
  "cbook_word_in_group book group_index word_local_index =
     (if cb_err book \<noteq> CERR_NONE
         \<or> group_size book group_index = 0
         \<or> group_size book group_index \<le> word_local_index
      then []
      else c_string_at (cb_chars book)
             (cb_words book ! (cb_groups book ! group_index + word_local_index)))"

definition cbook_word_index :: "cbook \<Rightarrow> nat \<Rightarrow> nat \<Rightarrow> nat" where
  "cbook_word_index book group_index word_local_index =
     (if cb_err book \<noteq> CERR_NONE
         \<or> group_size book group_index = 0
         \<or> group_size book group_index \<le> word_local_index
      then 0
      else cb_groups book ! group_index + word_local_index)"

definition cbook_words_number :: "cbook \<Rightarrow> nat" where
  "cbook_words_number book = (if cb_err book \<noteq> CERR_NONE then 0 else cb_n_words book)"

text \<open>
  The loop of \<open>cbook_write\<close> that doubles the byte capacity until the string fits:
  \<^verbatim>\<open>while (ns > nc - book->n_chars) if (!safe_mul(&nc, nc, 2)) { overflow }\<close>
  The subtraction is on \<open>size_t\<close> and wraps. With \<open>nc = 0\<close> the doubling makes no
  progress and the loop does not end: the result is then \<open>None\<close>.
\<close>

datatype fit = Fits nat | Overflows

partial_function (option) fit_chars :: "nat \<Rightarrow> nat \<Rightarrow> nat \<Rightarrow> fit option" where
  "fit_chars ns n_chars nc =
     (if ns > size_sub nc n_chars
      then (case safe_mul nc 2 of
              None \<Rightarrow> Some Overflows
            | Some nc2 \<Rightarrow> fit_chars ns n_chars nc2)
      else Some (Fits nc))"

declare fit_chars.simps [code]

text \<open>
  \<open>cbook_write\<close>: \<open>str\<close> is the C string without its terminator, so \<open>ns\<close> is its
  length plus one; \<open>memmove\<close> writes the string and its NUL at \<open>n_chars\<close>. The result
  is \<open>None\<close> when the doubling loop does not end.
\<close>

definition cbook_write :: "bool \<times> bool \<times> bool \<Rightarrow> cbook \<Rightarrow> string \<Rightarrow> cbook option" where
  "cbook_write mem book str =
     (if cb_err book \<noteq> CERR_NONE then Some book
      else let ns = length str + 1;
               nw = wrap (cb_n_alloc_words book
                            * (if cb_n_words book \<ge> cb_n_alloc_words book then 2 else 1));
               ng = wrap (cb_n_alloc_groups book
                            * (if cb_n_groups book \<ge> cb_n_alloc_groups book then 2 else 1))
        in case fit_chars ns (cb_n_chars book) (cb_n_alloc_chars book) of
             None \<Rightarrow> None
           | Some Overflows \<Rightarrow> Some (book\<lparr>cb_err := CERR_OVERFLOW\<rparr>)
           | Some (Fits nc) \<Rightarrow>
               (case grow_cbook mem book nc nw ng of
                  (book1, ok) \<Rightarrow>
                    if \<not> ok then Some book1
                    else let book2 =
                           (if cb_new_group book1
                            then book1\<lparr>cb_groups := (cb_groups book1)
                                          [cb_n_groups book1 := cb_n_words book1],
                                        cb_n_groups := cb_n_groups book1 + 1,
                                        cb_new_group := False\<rparr>
                            else book1)
                      in Some (book2\<lparr>cb_chars :=
                                        take (cb_n_chars book2) (cb_chars book2)
                                        @ str @ [NUL]
                                        @ drop (cb_n_chars book2 + ns) (cb_chars book2),
                                      cb_words := (cb_words book2)
                                        [cb_n_words book2 := cb_n_chars book2],
                                      cb_n_words := cb_n_words book2 + 1,
                                      cb_n_chars := cb_n_chars book2 + ns\<rparr>)))"

text \<open>\<open>cbook_zero\<close>: \<open>memset\<close> fills the \<open>n_alloc_chars\<close> bytes of the buffer with NUL.\<close>

definition cbook_zero :: "cbook \<Rightarrow> cbook" where
  "cbook_zero book =
     (if cb_err book \<noteq> CERR_NONE then book
      else book\<lparr>cb_chars := replicate (cb_n_alloc_chars book) NUL
                             @ drop (cb_n_alloc_chars book) (cb_chars book),
                cb_n_groups := 0, cb_n_words := 0, cb_n_chars := 0\<rparr>)"

section \<open>Sequences of public calls\<close>

text \<open>
  A claim about "every public operation" or "every sequence of operations" needs the
  public interface as data: one constructor per public function of a container (its
  arguments, and the outcomes of the allocations it makes), a function that performs one
  call and returns the new state with the value the C function returns, and a function
  that performs a list of calls in order. An argument of type \<open>size_t\<close> is a 64-bit
  word here, so that every call in a sequence is one a C caller can make. \<open>destroy\<close>
  ends the life of the instance and is not a call in a sequence.
\<close>

type_synonym size_t = "64 word"

datatype 'c res =
    R_void
  | R_new 'c
  | R_cerr cerr
  | R_found bool "nat option"
  | R_count "32 word" "nat option"
  | R_uint "32 word"
  | R_int16 "16 word"
  | R_size nat
  | R_ptr ptr
  | R_str string

subsection \<open>Slot table\<close>

datatype cinputs_op =
    I_clear
  | I_clone bool bool
  | I_error
  | I_find "32 word"
  | I_id size_t
  | I_load
  | I_ptr size_t
  | I_pull_id "32 word"
  | I_pull_index size_t
  | I_push "32 word" int int ptr
  | I_repair
  | I_resize bool size_t
  | I_set_default_ptr ptr
  | I_x size_t
  | I_y size_t

fun cinputs_call :: "cinputs_op \<Rightarrow> cinputs \<Rightarrow> cinputs \<times> cinputs res" where
  "cinputs_call I_clear s = (cinputs_clear s, R_void)"
| "cinputs_call (I_clone mem_obj mem) s = (s, R_new (cinputs_clone mem_obj mem s))"
| "cinputs_call I_error s = (s, R_cerr (cinputs_error s))"
| "cinputs_call (I_find k) s = (s, R_found (fst (cinputs_find s k)) (snd (cinputs_find s k)))"
| "cinputs_call (I_id i) s = (s, R_uint (cinputs_id s (unat i)))"
| "cinputs_call I_load s = (s, R_size (cinputs_load s))"
| "cinputs_call (I_ptr i) s = (s, R_ptr (cinputs_ptr s (unat i)))"
| "cinputs_call (I_pull_id k) s = (cinputs_pull_id s k, R_void)"
| "cinputs_call (I_pull_index i) s = (cinputs_pull_index s (unat i), R_void)"
| "cinputs_call (I_push k x y p) s = (cinputs_push s k x y p, R_void)"
| "cinputs_call I_repair s = (cinputs_repair s, R_void)"
| "cinputs_call (I_resize mem k) s = (cinputs_resize mem s (unat k), R_void)"
| "cinputs_call (I_set_default_ptr p) s = (cinputs_set_default_ptr s p, R_void)"
| "cinputs_call (I_x i) s = (s, R_int16 (cinputs_x s (unat i)))"
| "cinputs_call (I_y i) s = (s, R_int16 (cinputs_y s (unat i)))"

fun cinputs_calls :: "cinputs_op list \<Rightarrow> cinputs \<Rightarrow> cinputs \<times> cinputs res list" where
  "cinputs_calls [] s = (s, [])"
| "cinputs_calls (c # cs) s =
     (case cinputs_call c s of
        (s1, r) \<Rightarrow> (case cinputs_calls cs s1 of (s2, rs) \<Rightarrow> (s2, r # rs)))"

text \<open>
  The value each function returns when it leaves early: 0, false, the configured
  default pointer, and the placeholder for \<open>clone\<close>. For the error query the zero value
  of \<open>enum cerr\<close> stands here.
\<close>

fun cinputs_default :: "cinputs \<Rightarrow> cinputs_op \<Rightarrow> cinputs res" where
  "cinputs_default s (I_clone mem_obj mem) = R_new cinputs_placeholder_instance"
| "cinputs_default s I_error = R_cerr CERR_NONE"
| "cinputs_default s (I_find k) = R_found False None"
| "cinputs_default s (I_id i) = R_uint 0"
| "cinputs_default s I_load = R_size 0"
| "cinputs_default s (I_ptr i) = R_ptr (ci_default_ptr s)"
| "cinputs_default s (I_x i) = R_int16 0"
| "cinputs_default s (I_y i) = R_int16 0"
| "cinputs_default s c = R_void"

subsection \<open>Reference registry\<close>

datatype cref_op =
    C_clear
  | C_clone bool bool
  | C_count size_t
  | C_error
  | C_find ptr
  | C_length
  | C_prealloc bool size_t
  | C_ptr size_t
  | C_pull_index size_t
  | C_pull_ptr ptr
  | C_purge_index size_t
  | C_purge_ptr ptr
  | C_push bool ptr
  | C_repair
  | C_set_default_ptr ptr

fun cref_call :: "cref_op \<Rightarrow> cref \<Rightarrow> cref \<times> cref res" where
  "cref_call C_clear s = (cref_clear s, R_void)"
| "cref_call (C_clone mem_obj mem) s = (s, R_new (cref_clone mem_obj mem s))"
| "cref_call (C_count i) s = (s, R_uint (cref_count s (unat i)))"
| "cref_call C_error s = (s, R_cerr (cref_error s))"
| "cref_call (C_find p) s = (s, R_count (fst (cref_find s p)) (snd (cref_find s p)))"
| "cref_call C_length s = (s, R_size (cref_length s))"
| "cref_call (C_prealloc mem k) s = (cref_prealloc mem s (unat k), R_void)"
| "cref_call (C_ptr i) s = (s, R_ptr (cref_ptr s (unat i)))"
| "cref_call (C_pull_index i) s = (cref_pull_index s (unat i), R_void)"
| "cref_call (C_pull_ptr p) s = (cref_pull_ptr s p, R_void)"
| "cref_call (C_purge_index i) s = (cref_purge_index s (unat i), R_void)"
| "cref_call (C_purge_ptr p) s = (cref_purge_ptr s p, R_void)"
| "cref_call (C_push mem p) s = (cref_push mem s p, R_void)"
| "cref_call C_repair s = (cref_repair s, R_void)"
| "cref_call (C_set_default_ptr p) s = (cref_set_default_ptr s p, R_void)"

fun cref_calls :: "cref_op list \<Rightarrow> cref \<Rightarrow> cref \<times> cref res list" where
  "cref_calls [] s = (s, [])"
| "cref_calls (c # cs) s =
     (case cref_call c s of
        (s1, r) \<Rightarrow> (case cref_calls cs s1 of (s2, rs) \<Rightarrow> (s2, r # rs)))"

fun cref_default :: "cref \<Rightarrow> cref_op \<Rightarrow> cref res" where
  "cref_default s (C_clone mem_obj mem) = R_new cref_placeholder_instance"
| "cref_default s (C_count i) = R_uint 0"
| "cref_default s C_error = R_cerr CERR_NONE"
| "cref_default s (C_find p) = R_count 0 None"
| "cref_default s C_length = R_size 0"
| "cref_default s (C_ptr i) = R_ptr (cr_default_ptr s)"
| "cref_default s c = R_void"

subsection \<open>String arena\<close>

datatype cbook_op =
    B_clear
  | B_clone bool "bool \<times> bool \<times> bool"
  | B_error
  | B_group_length size_t
  | B_groups_number
  | B_length
  | B_pop_group
  | B_pop_word
  | B_prealloc "bool \<times> bool \<times> bool" size_t size_t size_t
  | B_prepare_new_group
  | B_repair
  | B_undo_new_group
  | B_word size_t
  | B_word_in_group size_t size_t
  | B_word_index size_t size_t
  | B_words_number
  | B_write "bool \<times> bool \<times> bool" string
  | B_zero

text \<open>A call has no result (\<open>None\<close>) where \<open>cbook_pop_word\<close> or \<open>cbook_write\<close> has none.\<close>

fun cbook_call :: "cbook_op \<Rightarrow> cbook \<Rightarrow> (cbook \<times> cbook res) option" where
  "cbook_call B_clear s = Some (cbook_clear s, R_void)"
| "cbook_call (B_clone mem_obj mem) s = Some (s, R_new (cbook_clone mem_obj mem s))"
| "cbook_call B_error s = Some (s, R_cerr (cbook_error s))"
| "cbook_call (B_group_length g) s = Some (s, R_size (cbook_group_length s (unat g)))"
| "cbook_call B_groups_number s = Some (s, R_size (cbook_groups_number s))"
| "cbook_call B_length s = Some (s, R_size (cbook_length s))"
| "cbook_call B_pop_group s = Some (cbook_pop_group s, R_void)"
| "cbook_call B_pop_word s = map_option (\<lambda>s1. (s1, R_void)) (cbook_pop_word s)"
| "cbook_call (B_prealloc mem kc kw kg) s = Some (cbook_prealloc mem s (unat kc) (unat kw) (unat kg), R_void)"
| "cbook_call B_prepare_new_group s = Some (cbook_prepare_new_group s, R_void)"
| "cbook_call B_repair s = Some (cbook_repair s, R_void)"
| "cbook_call B_undo_new_group s = Some (cbook_undo_new_group s, R_void)"
| "cbook_call (B_word w) s = Some (s, R_str (cbook_word s (unat w)))"
| "cbook_call (B_word_in_group g w) s = Some (s, R_str (cbook_word_in_group s (unat g) (unat w)))"
| "cbook_call (B_word_index g w) s = Some (s, R_size (cbook_word_index s (unat g) (unat w)))"
| "cbook_call B_words_number s = Some (s, R_size (cbook_words_number s))"
| "cbook_call (B_write mem str) s = map_option (\<lambda>s1. (s1, R_void)) (cbook_write mem s str)"
| "cbook_call B_zero s = Some (cbook_zero s, R_void)"

fun cbook_calls :: "cbook_op list \<Rightarrow> cbook \<Rightarrow> (cbook \<times> cbook res list) option" where
  "cbook_calls [] s = Some (s, [])"
| "cbook_calls (c # cs) s =
     (case cbook_call c s of
        None \<Rightarrow> None
      | Some (s1, r) \<Rightarrow>
          (case cbook_calls cs s1 of None \<Rightarrow> None | Some (s2, rs) \<Rightarrow> Some (s2, r # rs)))"

fun cbook_default :: "cbook \<Rightarrow> cbook_op \<Rightarrow> cbook res" where
  "cbook_default s (B_clone mem_obj mem) = R_new cbook_placeholder_instance"
| "cbook_default s B_error = R_cerr CERR_NONE"
| "cbook_default s (B_group_length g) = R_size 0"
| "cbook_default s B_groups_number = R_size 0"
| "cbook_default s B_length = R_size 0"
| "cbook_default s (B_word w) = R_str []"
| "cbook_default s (B_word_in_group g w) = R_str []"
| "cbook_default s (B_word_index g w) = R_size 0"
| "cbook_default s B_words_number = R_size 0"
| "cbook_default s c = R_void"

section \<open>Reachable states and what the code maintains\<close>

text \<open>
  An instance of the slot table or of the registry is reachable when a C caller can
  obtain it: it is returned by \<open>create\<close> (the placeholder included, when an allocation
  fails), by \<open>clone\<close> of a reachable instance, or it is a reachable instance after one
  more public call. Every call of these two containers has a defined result. The arena
  has a call that can read outside an array (\<open>cbook_pop_word\<close>), so its states are
  followed along sequences of calls (\<open>cbook_calls\<close>) instead.
\<close>

inductive_set cinputs_reach :: "cinputs set" where
  I_created: "cinputs_create mem_obj mem (unat (k :: size_t)) \<in> cinputs_reach"
| I_cloned: "s \<in> cinputs_reach \<Longrightarrow> cinputs_clone mem_obj mem s \<in> cinputs_reach"
| I_called: "s \<in> cinputs_reach \<Longrightarrow> fst (cinputs_call c s) \<in> cinputs_reach"

inductive_set cref_reach :: "cref set" where
  C_created: "cref_create mem_obj mem \<in> cref_reach"
| C_cloned: "s \<in> cref_reach \<Longrightarrow> cref_clone mem_obj mem s \<in> cref_reach"
| C_called: "s \<in> cref_reach \<Longrightarrow> fst (cref_call c s) \<in> cref_reach"

text \<open>The live entries of a table: the first \<open>n\<close> slots.\<close>

definition cinputs_live :: "cinputs \<Rightarrow> islot list" where
  "cinputs_live s = take (ci_n s) (ci_slots s)"

definition cref_live :: "cref \<Rightarrow> rslot list" where
  "cref_live s = take (cr_n s) (cr_slots s)"

text \<open>
  The count a list of registry entries holds for a pointer: that of the first entry with
  the pointer, 0 when there is none.
\<close>

definition count_in :: "rslot list \<Rightarrow> ptr \<Rightarrow> 32 word" where
  "count_in cs q = (case find (\<lambda>c. rslot_ptr c = q) cs of None \<Rightarrow> 0 | Some c \<Rightarrow> rslot_n_ref c)"


text \<open>
  The facts the code of each container maintains. For the slot table: the length is
  within the capacity, the array has \<open>n_alloc\<close> cells, and the live ids are distinct.
\<close>

definition cinputs_inv :: "cinputs \<Rightarrow> bool" where
  "cinputs_inv s \<longleftrightarrow>
     ci_n s \<le> ci_n_alloc s \<and> length (ci_slots s) = ci_n_alloc s
     \<and> distinct (map islot_id (cinputs_live s))"

text \<open>
  For the registry: also, the byte size of the array is within \<open>SIZE_MAX\<close>, every
  instance but the placeholder has at least one cell, the live pointers are distinct and
  no live count is zero.
\<close>

definition cref_inv :: "cref \<Rightarrow> bool" where
  "cref_inv s \<longleftrightarrow>
     cr_n s \<le> cr_n_alloc s \<and> length (cr_slots s) = cr_n_alloc s
     \<and> cr_n_alloc s * sizeof_rslot \<le> SIZE_MAX
     \<and> (cr_err s = CERR_INVALID \<or> 1 \<le> cr_n_alloc s)
     \<and> distinct (map rslot_ptr (cref_live s))
     \<and> list_all (\<lambda>c. rslot_n_ref c \<noteq> 0) (cref_live s)"

text \<open>
  For the arena: the three lengths are within the three capacities, the arrays have the
  allocated sizes, the live word offsets increase strictly and lie below \<open>n_chars\<close>, and
  the live group offsets increase strictly and lie below \<open>n_words\<close>.
\<close>

definition cbook_inv :: "cbook \<Rightarrow> bool" where
  "cbook_inv s \<longleftrightarrow>
     cb_n_chars s \<le> cb_n_alloc_chars s \<and> cb_n_words s \<le> cb_n_alloc_words s
     \<and> cb_n_groups s \<le> cb_n_alloc_groups s
     \<and> length (cb_chars s) = cb_n_alloc_chars s
     \<and> length (cb_words s) = cb_n_alloc_words s
     \<and> length (cb_groups s) = cb_n_alloc_groups s
     \<and> cb_n_alloc_chars s \<le> SIZE_MAX
     \<and> cb_n_alloc_words s * sizeof_size_t \<le> SIZE_MAX
     \<and> cb_n_alloc_groups s * sizeof_size_t \<le> SIZE_MAX
     \<and> (cb_err s = CERR_INVALID
          \<or> 1 \<le> cb_n_alloc_chars s \<and> 1 \<le> cb_n_alloc_words s \<and> 1 \<le> cb_n_alloc_groups s)
     \<and> sorted_wrt (<) (take (cb_n_words s) (cb_words s))
     \<and> list_all (\<lambda>w. w < cb_n_chars s) (take (cb_n_words s) (cb_words s))
     \<and> sorted_wrt (<) (take (cb_n_groups s) (cb_groups s))
     \<and> list_all (\<lambda>g. g < cb_n_words s) (take (cb_n_groups s) (cb_groups s))"

text \<open>
  What \<open>cbook_pop_word\<close> relies on, in every book but the placeholder: every word lies
  in a group. A book without a group has no word and its flag \<open>new_group\<close> is set, so
  that the first write opens a group; and the first group starts at word 0.
\<close>

definition cbook_grouped :: "cbook \<Rightarrow> bool" where
  "cbook_grouped s \<longleftrightarrow>
     cb_err s = CERR_INVALID
     \<or> (if cb_n_groups s = 0 then cb_new_group s \<and> cb_n_words s = 0
         else cb_groups s ! 0 = 0)"


fun cref_pushes :: "(bool \<times> ptr) list \<Rightarrow> cref \<Rightarrow> cref" where
  "cref_pushes [] s = s"
| "cref_pushes ((mem, p) # ps) s = cref_pushes ps (cref_push mem s p)"

fun cref_pulls :: "nat \<Rightarrow> ptr \<Rightarrow> cref \<Rightarrow> cref" where
  "cref_pulls 0 p s = s"
| "cref_pulls (Suc j) p s = cref_pulls j p (cref_pull_ptr s p)"

text \<open>The three observables of the arena that the stack law speaks of.\<close>

definition cbook_sizes :: "cbook \<Rightarrow> nat \<times> nat \<times> nat" where
  "cbook_sizes s = (cbook_length s, cbook_words_number s, cbook_groups_number s)"

fun cbook_writes :: "((bool \<times> bool \<times> bool) \<times> string) list \<Rightarrow> cbook \<Rightarrow> cbook option" where
  "cbook_writes [] s = Some s"
| "cbook_writes ((mem, str) # ws) s =
     (case cbook_write mem s str of None \<Rightarrow> None | Some s1 \<Rightarrow> cbook_writes ws s1)"

fun cbook_pop_words :: "nat \<Rightarrow> cbook \<Rightarrow> cbook option" where
  "cbook_pop_words 0 s = Some s"
| "cbook_pop_words (Suc j) s =
     (case cbook_pop_word s of None \<Rightarrow> None | Some s1 \<Rightarrow> cbook_pop_words j s1)"

section \<open>Basic facts\<close>

lemma SIZE_MAX_num: "SIZE_MAX = 18446744073709551615"
  by (simp add: SIZE_MAX_def)

lemma safe_mul_Some: "a * b \<le> SIZE_MAX \<Longrightarrow> safe_mul a b = Some (a * b)"
  by (simp add: safe_mul_def)

lemma safe_mul_None: "SIZE_MAX < a * b \<Longrightarrow> safe_mul a b = None"
  by (simp add: safe_mul_def)

lemmas cinputs_create_simps =
  cinputs_create_def resize_def cinputs_calloc_def safe_mul_def sizeof_islot_def SIZE_MAX_num
  realloc_cells_def

section \<open>Slot table: positional accessors\<close>

text \<open>
  C9, as the claim states it, fails: on a table created with capacity 2 whose default
  pointer was set to 7, \<open>cinputs_id\<close> at the out-of-range index 5 returns 0, not the
  configured default 7.
\<close>

theorem C9_counterexample:
  "cinputs_id (cinputs_set_default_ptr (cinputs_create True True 2) 7) 5 = 0
   \<and> unat (cinputs_id (cinputs_set_default_ptr (cinputs_create True True 2) 7) 5) \<noteq> 7
   \<and> ci_default_ptr (cinputs_set_default_ptr (cinputs_create True True 2) 7) = 7
   \<and> ci_err (cinputs_set_default_ptr (cinputs_create True True 2) 7) = CERR_NONE
   \<and> ci_n (cinputs_set_default_ptr (cinputs_create True True 2) 7) \<le> 5"
  by (simp add: cinputs_id_def cinputs_set_default_ptr_def cinputs_create_simps)

text \<open>
  C9, amended: with an out-of-range index or while an error is set, \<open>cinputs_ptr\<close>
  returns the configured default pointer (the value last given to
  \<open>cinputs_set_default_ptr\<close>), and \<open>cinputs_id\<close>, \<open>cinputs_x\<close> and \<open>cinputs_y\<close>
  return 0.
\<close>

theorem C9_accessor_defaults:
  "ci_err s \<noteq> CERR_NONE \<or> ci_n s \<le> i \<Longrightarrow>
     cinputs_ptr s i = ci_default_ptr s
     \<and> cinputs_id s i = 0 \<and> cinputs_x s i = 0 \<and> cinputs_y s i = 0
     \<and> (ci_err s = CERR_NONE \<longrightarrow> cinputs_ptr (cinputs_set_default_ptr s p) i = p)"
  by (auto simp: cinputs_ptr_def cinputs_id_def cinputs_x_def cinputs_y_def
      cinputs_set_default_ptr_def)

theorem C9_accessor_defaults_witness:
  "ci_n (cinputs_create True True 2) \<le> 5
   \<and> cinputs_ptr (cinputs_create True True 2) 5 = NULL
   \<and> cinputs_id (cinputs_create True True 2) 5 = 0
   \<and> cinputs_ptr (cinputs_set_default_ptr (cinputs_create True True 2) 7) 5 = 7"
proof -
  have h: "ci_err (cinputs_create True True 2) \<noteq> CERR_NONE
           \<or> ci_n (cinputs_create True True 2) \<le> 5"
    by (simp add: cinputs_create_simps)
  have e: "ci_err (cinputs_create True True 2) = CERR_NONE"
    by (simp add: cinputs_create_simps)
  have d: "ci_default_ptr (cinputs_create True True 2) = NULL"
    by (simp add: cinputs_create_simps)
  show ?thesis
    using C9_accessor_defaults [OF h, of 7] h e d by simp
qed

section \<open>Facts about the shared primitives\<close>

lemma scan_None_iff: "scan P cs i = None \<longleftrightarrow> (\<forall>c \<in> set cs. \<not> P c)"
  by (induction cs arbitrary: i) auto

lemma scan_Some:
  "scan P cs i = Some j \<Longrightarrow>
     i \<le> j \<and> j - i < length cs \<and> P (cs ! (j - i)) \<and> (\<forall>k < j - i. \<not> P (cs ! k))"
proof (induction cs arbitrary: i)
  case Nil
  then show ?case by simp
next
  case (Cons c cs)
  show ?case
  proof (cases "P c")
    case True
    with Cons.prems show ?thesis by simp
  next
    case False
    with Cons.prems have s: "scan P cs (Suc i) = Some j" by simp
    from Cons.IH [OF s] have a: "Suc i \<le> j" and b: "j - Suc i < length cs"
      and c: "P (cs ! (j - Suc i))" and d: "\<forall>k < j - Suc i. \<not> P (cs ! k)" by auto
    from a have e: "j - i = Suc (j - Suc i)" by simp
    show ?thesis
      using a b c d False unfolding e
      by (auto simp: nth_Cons split: nat.splits)
  qed
qed

lemma length_realloc_cells [simp]: "length (realloc_cells f cells k) = k"
  by (simp add: realloc_cells_def)

lemma take_realloc_cells:
  "n \<le> k \<Longrightarrow> n \<le> length cells \<Longrightarrow> take n (realloc_cells f cells k) = take n cells"
  by (simp add: realloc_cells_def min_def)

lemma length_memmove_cells:
  assumes "i < n" and "n \<le> length cells"
  shows "length (memmove_cells cells i (Suc i) (n - 1 - i)) = length cells"
proof -
  have "min (length cells - Suc i) (n - 1 - i) = n - 1 - i"
    using assms by simp
  then show ?thesis
    using assms by (simp add: memmove_cells_def)
qed

lemma take_memmove_cells:
  assumes "i < n" and "n \<le> length cells"
  shows "take (n - 1) (memmove_cells cells i (Suc i) (n - 1 - i))
           = take i cells @ drop (Suc i) (take n cells)"
proof -
  define live where "live = take i cells @ drop (Suc i) (take n cells)"
  have a: "take (n - Suc i) (drop (Suc i) cells) = drop (Suc i) (take n cells)"
    by (rule drop_take [symmetric])
  have b: "length live = n - 1"
    using assms by (simp add: live_def)
  have c: "memmove_cells cells i (Suc i) (n - 1 - i) = live @ drop (i + (n - 1 - i)) cells"
    by (simp add: memmove_cells_def a live_def)
  have "take (n - 1) (live @ drop (i + (n - 1 - i)) cells) = live"
    using b by simp
  then show ?thesis
    unfolding c unfolding live_def .
qed

lemma set_remove_nth_subset: "set (take i xs @ drop (Suc i) xs) \<subseteq> set xs"
  using set_take_subset [of i xs] set_drop_subset [of "Suc i" xs] by auto

lemma distinct_map_remove_nth:
  "distinct (map f xs) \<Longrightarrow> distinct (map f (take i xs @ drop (Suc i) xs))"
proof (induction xs arbitrary: i)
  case Nil
  then show ?case by simp
next
  case (Cons x xs)
  show ?case
  proof (cases i)
    case 0
    with Cons.prems show ?thesis by simp
  next
    case (Suc j)
    have "f x \<notin> f ` set (take j xs @ drop (Suc j) xs)"
      using Cons.prems set_remove_nth_subset [of j xs] by auto
    with Cons Suc show ?thesis by auto
  qed
qed

section \<open>Error stickiness\<close>

text \<open>
  One call on an instance whose error is set, other than \<open>repair\<close>: the state is
  unchanged, the error query returns the stored error and every other function returns
  its default value.
\<close>

lemma cinputs_call_error:
  "ci_err s \<noteq> CERR_NONE \<Longrightarrow> c \<noteq> I_repair \<Longrightarrow>
     cinputs_call c s = (s, if c = I_error then R_cerr (ci_err s) else cinputs_default s c)"
  by (cases c)
    (simp_all add: cinputs_clear_def cinputs_clone_def cinputs_error_def cinputs_find_def
      cinputs_id_def cinputs_load_def cinputs_ptr_def cinputs_pull_id_def
      cinputs_pull_index_def cinputs_push_def cinputs_resize_def cinputs_set_default_ptr_def
      cinputs_x_def cinputs_y_def)

lemma cinputs_calls_error:
  "ci_err s \<noteq> CERR_NONE \<Longrightarrow> I_repair \<notin> set cs \<Longrightarrow>
     cinputs_calls cs s =
       (s, map (\<lambda>c. if c = I_error then R_cerr (ci_err s) else cinputs_default s c) cs)"
  proof (induction cs)
  case Nil
  show ?case by simp
next
  case (Cons c cs)
  then have "c \<noteq> I_repair" by auto
  with Cons show ?case
    by (simp add: cinputs_call_error del: cinputs_call.simps)
qed

lemma cref_call_error:
  "cr_err s \<noteq> CERR_NONE \<Longrightarrow> c \<noteq> C_repair \<Longrightarrow>
     cref_call c s = (s, if c = C_error then R_cerr (cr_err s) else cref_default s c)"
  by (cases c)
    (simp_all add: cref_clear_def cref_clone_def cref_count_def cref_error_def cref_find_def
      cref_length_def cref_prealloc_def cref_ptr_def cref_pull_index_def cref_pull_ptr_def
      cref_purge_index_def cref_purge_ptr_def cref_push_def cref_set_default_ptr_def)

lemma cref_calls_error:
  "cr_err s \<noteq> CERR_NONE \<Longrightarrow> C_repair \<notin> set cs \<Longrightarrow>
     cref_calls cs s =
       (s, map (\<lambda>c. if c = C_error then R_cerr (cr_err s) else cref_default s c) cs)"
  proof (induction cs)
  case Nil
  show ?case by simp
next
  case (Cons c cs)
  then have "c \<noteq> C_repair" by auto
  with Cons show ?case
    by (simp add: cref_call_error del: cref_call.simps)
qed

lemma cbook_call_error:
  "cb_err s \<noteq> CERR_NONE \<Longrightarrow> c \<noteq> B_repair \<Longrightarrow>
     cbook_call c s = Some (s, if c = B_error then R_cerr (cb_err s) else cbook_default s c)"
  by (cases c)
    (simp_all add: cbook_clear_def cbook_clone_def cbook_error_def cbook_group_length_def
      cbook_groups_number_def cbook_length_def cbook_pop_group_def cbook_pop_word_def
      cbook_prealloc_def cbook_prepare_new_group_def cbook_undo_new_group_def cbook_word_def
      cbook_word_in_group_def cbook_word_index_def cbook_words_number_def cbook_write_def
      cbook_zero_def)

lemma cbook_calls_error:
  "cb_err s \<noteq> CERR_NONE \<Longrightarrow> B_repair \<notin> set cs \<Longrightarrow>
     cbook_calls cs s =
       Some (s, map (\<lambda>c. if c = B_error then R_cerr (cb_err s) else cbook_default s c) cs)"
  proof (induction cs)
  case Nil
  show ?case by simp
next
  case (Cons c cs)
  then have "c \<noteq> B_repair" by auto
  with Cons show ?case
    by (simp add: cbook_call_error del: cbook_call.simps)
qed

text \<open>
  C1, as the claim states it, fails for one public reading operation other than
  \<open>repair\<close>: the error query. On a slot table whose error is \<open>CERR_PARAM\<close> (after a
  resize to 0), \<open>cinputs_error\<close> returns \<open>CERR_PARAM\<close>, the stored error, not the
  zero value of its return type.
\<close>

theorem C1_counterexample:
  "ci_err (cinputs_resize True (cinputs_create True True 2) 0) = CERR_PARAM
   \<and> cinputs_call I_error (cinputs_resize True (cinputs_create True True 2) 0)
       = (cinputs_resize True (cinputs_create True True 2) 0, R_cerr CERR_PARAM)
   \<and> cinputs_default (cinputs_resize True (cinputs_create True True 2) 0) I_error
       = R_cerr CERR_NONE"
  by (simp add: cinputs_resize_def cinputs_error_def cinputs_create_simps)

text \<open>
  C1, amended: for every slot table, reference registry and string arena whose stored
  error is PARAM, OVERFLOW or MEMORY, every sequence of public calls that contains no
  \<open>repair\<close> leaves the state unchanged, and in it every call returns the default value
  of its function, except the error query, which returns the stored error.
\<close>

theorem C1_error_sticky:
  "(ci_err i \<in> {CERR_PARAM, CERR_OVERFLOW, CERR_MEMORY} \<and> I_repair \<notin> set ics \<longrightarrow>
      cinputs_calls ics i =
        (i, map (\<lambda>c. if c = I_error then R_cerr (ci_err i) else cinputs_default i c) ics))
   \<and> (cr_err r \<in> {CERR_PARAM, CERR_OVERFLOW, CERR_MEMORY} \<and> C_repair \<notin> set rcs \<longrightarrow>
      cref_calls rcs r =
        (r, map (\<lambda>c. if c = C_error then R_cerr (cr_err r) else cref_default r c) rcs))
   \<and> (cb_err b \<in> {CERR_PARAM, CERR_OVERFLOW, CERR_MEMORY} \<and> B_repair \<notin> set bcs \<longrightarrow>
      cbook_calls bcs b =
        Some (b, map (\<lambda>c. if c = B_error then R_cerr (cb_err b) else cbook_default b c) bcs))"
  by (auto simp: cinputs_calls_error cref_calls_error cbook_calls_error)

theorem C1_error_sticky_witness:
  "cinputs_calls [I_push 1 0 0 5, I_find 1, I_load, I_ptr 0, I_error]
       (cinputs_resize True (cinputs_create True True 2) 0)
     = (cinputs_resize True (cinputs_create True True 2) 0,
        [R_void, R_found False None, R_size 0, R_ptr NULL, R_cerr CERR_PARAM])
   \<and> cref_calls [C_push True 5, C_find 5, C_length]
       (cref_prealloc True (cref_create True True) (2 ^ 62))
     = (cref_prealloc True (cref_create True True) (2 ^ 62),
        [R_void, R_count 0 None, R_size 0])
   \<and> cbook_calls [B_write (True, True, True) ''a'', B_length, B_word 0]
       (cbook_prealloc (True, True, True) (cbook_create True (True, True, True)) 0 (2 ^ 62) 0)
     = Some (cbook_prealloc (True, True, True) (cbook_create True (True, True, True)) 0 (2 ^ 62) 0,
        [R_void, R_size 0, R_str []])"
proof -
  define i0 where "i0 = cinputs_resize True (cinputs_create True True 2) 0"
  define r0 where "r0 = cref_prealloc True (cref_create True True) (2 ^ 62)"
  define b0 where
    "b0 = cbook_prealloc (True, True, True) (cbook_create True (True, True, True)) 0 (2 ^ 62) 0"
  have i: "ci_err i0 = CERR_PARAM" and d: "ci_default_ptr i0 = NULL"
    unfolding i0_def by (simp_all add: cinputs_resize_def cinputs_create_simps)
  have r: "cr_err r0 = CERR_OVERFLOW"
    unfolding r0_def
    by (simp add: cref_prealloc_def cref_create_def grow_cref_def cref_calloc_def
        safe_mul_def sizeof_rslot_def SIZE_MAX_num)
  have b: "cb_err b0 = CERR_OVERFLOW"
    unfolding b0_def
    by (simp add: cbook_prealloc_def cbook_create_def grow_cbook_def cbook_calloc_def
        safe_mul_def sizeof_size_t_def SIZE_MAX_num)
  have "cinputs_calls [I_push 1 0 0 5, I_find 1, I_load, I_ptr 0, I_error] i0
          = (i0, [R_void, R_found False None, R_size 0, R_ptr NULL, R_cerr CERR_PARAM])
        \<and> cref_calls [C_push True 5, C_find 5, C_length] r0
          = (r0, [R_void, R_count 0 None, R_size 0])
        \<and> cbook_calls [B_write (True, True, True) ''a'', B_length, B_word 0] b0
          = Some (b0, [R_void, R_size 0, R_str []])"
    using C1_error_sticky
      [of i0 "[I_push 1 0 0 5, I_find 1, I_load, I_ptr 0, I_error]"
          r0 "[C_push True 5, C_find 5, C_length]"
          b0 "[B_write (True, True, True) ''a'', B_length, B_word 0]"]
    by (simp add: i d r b del: cinputs_calls.simps cref_calls.simps cbook_calls.simps)
  then show ?thesis
    unfolding i0_def r0_def b0_def .
qed

section \<open>Slot table: capacity ceiling\<close>

lemma cinputs_find_not_found:
  "\<not> fst (cinputs_find s k) \<Longrightarrow> cinputs_pull_id s k = s"
  by (auto simp: cinputs_pull_id_def cinputs_find_def split: option.splits if_splits)

text \<open>
  C3: a push into an error-free slot table whose length equals its capacity, of an id
  that is not present, changes nothing: the length is the same and the id is not found
  afterwards. With capacity 2, three pushes of distinct ids leave the length at 2 and
  the third id unfound.
\<close>

theorem C3_capacity_ceiling:
  "(ci_err s = CERR_NONE \<and> ci_n s = ci_n_alloc s \<and> \<not> fst (cinputs_find s k) \<longrightarrow>
      cinputs_push s k x y p = s
      \<and> cinputs_load (cinputs_push s k x y p) = cinputs_load s
      \<and> \<not> fst (cinputs_find (cinputs_push s k x y p) k))
   \<and> (k1 \<noteq> k2 \<and> k1 \<noteq> k3 \<and> k2 \<noteq> k3 \<longrightarrow>
      cinputs_load (cinputs_push (cinputs_push (cinputs_push (cinputs_create True True 2)
         k1 x1 y1 p1) k2 x2 y2 p2) k3 x3 y3 p3) = 2
      \<and> \<not> fst (cinputs_find (cinputs_push (cinputs_push (cinputs_push
         (cinputs_create True True 2) k1 x1 y1 p1) k2 x2 y2 p2) k3 x3 y3 p3) k3))"
proof (intro conjI impI)
  assume h: "ci_err s = CERR_NONE \<and> ci_n s = ci_n_alloc s \<and> \<not> fst (cinputs_find s k)"
  then show e: "cinputs_push s k x y p = s"
    by (simp add: cinputs_push_def cinputs_find_not_found)
  from h e show "cinputs_load (cinputs_push s k x y p) = cinputs_load s" by simp
  from h e show "\<not> fst (cinputs_find (cinputs_push s k x y p) k)" by simp
next
  assume d: "k1 \<noteq> k2 \<and> k1 \<noteq> k3 \<and> k2 \<noteq> k3"
  define s3 where "s3 = cinputs_push (cinputs_push (cinputs_push (cinputs_create True True 2)
         k1 x1 y1 p1) k2 x2 y2 p2) k3 x3 y3 p3"
  have "ci_n s3 = 2 \<and> ci_err s3 = CERR_NONE \<and> map islot_id (take 2 (ci_slots s3)) = [k1, k2]"
    using d unfolding s3_def
    by (simp add: cinputs_create_simps cinputs_push_def cinputs_pull_id_def cinputs_find_def
        cinputs_pull_index_def memmove_cells_def numeral_2_eq_2 Let_def)
  then show "cinputs_load (cinputs_push (cinputs_push (cinputs_push (cinputs_create True True 2)
         k1 x1 y1 p1) k2 x2 y2 p2) k3 x3 y3 p3) = 2"
     and "\<not> fst (cinputs_find (cinputs_push (cinputs_push (cinputs_push
         (cinputs_create True True 2) k1 x1 y1 p1) k2 x2 y2 p2) k3 x3 y3 p3) k3)"
    using d unfolding s3_def [symmetric]
    by (auto simp: cinputs_load_def cinputs_find_def scan_None_iff split: option.splits
        dest!: arg_cong [where f = set])
qed

theorem C3_capacity_ceiling_witness:
  "ci_n (cinputs_push (cinputs_push (cinputs_create True True 2) 1 0 0 0) 2 0 0 0) = 2
   \<and> cinputs_push (cinputs_push (cinputs_push (cinputs_create True True 2) 1 0 0 0) 2 0 0 0)
         3 7 8 9
       = cinputs_push (cinputs_push (cinputs_create True True 2) 1 0 0 0) 2 0 0 0
   \<and> cinputs_load (cinputs_push (cinputs_push (cinputs_push (cinputs_create True True 2)
         1 0 0 0) 2 0 0 0) 3 7 8 9) = 2
   \<and> \<not> fst (cinputs_find (cinputs_push (cinputs_push (cinputs_push
         (cinputs_create True True 2) 1 0 0 0) 2 0 0 0) 3 7 8 9) 3)"
proof -
  define s2 where "s2 = cinputs_push (cinputs_push (cinputs_create True True 2) 1 0 0 0) 2 0 0 0"
  have a: "ci_err s2 = CERR_NONE" and b: "ci_n s2 = 2" and c: "ci_n_alloc s2 = 2"
    and d: "\<not> fst (cinputs_find s2 3)"
    unfolding s2_def
    by (simp_all add: cinputs_create_simps cinputs_push_def cinputs_pull_id_def cinputs_find_def
        cinputs_pull_index_def memmove_cells_def numeral_2_eq_2 Let_def)
  have "ci_n s2 = 2 \<and> cinputs_push s2 3 7 8 9 = s2
        \<and> cinputs_load (cinputs_push s2 3 7 8 9) = 2
        \<and> \<not> fst (cinputs_find (cinputs_push s2 3 7 8 9) 3)"
    using C3_capacity_ceiling [of s2 3 7 8 9 1 2 3 0 0 0 0 0 0 7 8 9] a b c d
    by (simp add: cinputs_load_def)
  then show ?thesis
    unfolding s2_def .
qed

section \<open>Slot table: what the code maintains\<close>

lemma remove_nth_eq_filter:
  "distinct (map f xs) \<Longrightarrow> i < length xs \<Longrightarrow>
     take i xs @ drop (Suc i) xs = filter (\<lambda>c. f c \<noteq> f (xs ! i)) xs"
proof (induction xs arbitrary: i)
  case Nil
  then show ?case by simp
next
  case (Cons x xs)
  show ?case
  proof (cases i)
    case 0
    have "\<forall>c \<in> set xs. f c \<noteq> f x"
      using Cons.prems by (force simp: image_iff)
    then have "filter (\<lambda>c. f c \<noteq> f x) xs = xs"
      by (intro filter_True) simp
    with 0 show ?thesis by simp
  next
    case (Suc j)
    with Cons.prems have "xs ! j \<in> set xs" by simp
    with Cons.prems have "f (xs ! j) \<noteq> f x" by (force simp: image_iff)
    with Cons Suc show ?thesis by auto
  qed
qed

lemma filter_absent: "k \<notin> f ` set xs \<Longrightarrow> filter (\<lambda>c. f c \<noteq> k) xs = xs"
  by (intro filter_True) (force simp: image_iff)

lemma cinputs_find_found:
  assumes "fst (cinputs_find s k)"
  shows "\<exists>i. cinputs_find s k = (True, Some i) \<and> ci_err s = CERR_NONE
             \<and> i < length (cinputs_live s) \<and> islot_id (cinputs_live s ! i) = k"
proof -
  from assms have e: "ci_err s = CERR_NONE"
    by (auto simp: cinputs_find_def split: if_splits)
  with assms obtain i where sc: "scan (\<lambda>c. islot_id c = k) (cinputs_live s) 0 = Some i"
    by (auto simp: cinputs_find_def cinputs_live_def split: option.splits)
  from scan_Some [OF sc]
  have "i < length (cinputs_live s)" and "islot_id (cinputs_live s ! i) = k"
    by auto
  with e sc show ?thesis
    by (simp add: cinputs_find_def cinputs_live_def)
qed

lemma cinputs_find_absent:
  assumes "\<not> fst (cinputs_find s k)" and "ci_err s = CERR_NONE"
  shows "cinputs_find s k = (False, None)" and "k \<notin> islot_id ` set (cinputs_live s)"
proof -
  from assms have sc: "scan (\<lambda>c. islot_id c = k) (cinputs_live s) 0 = None"
    by (auto simp: cinputs_find_def cinputs_live_def split: option.splits)
  with assms show "cinputs_find s k = (False, None)"
    by (simp add: cinputs_find_def cinputs_live_def)
  from sc show "k \<notin> islot_id ` set (cinputs_live s)"
    by (auto simp: scan_None_iff)
qed

lemma cinputs_inv_placeholder: "cinputs_inv cinputs_placeholder_instance"
  by (simp add: cinputs_inv_def cinputs_placeholder_instance_def cinputs_live_def)

lemma cinputs_inv_unfold:
  "cinputs_inv s \<longleftrightarrow>
     ci_n s \<le> ci_n_alloc s \<and> length (ci_slots s) = ci_n_alloc s
     \<and> distinct (map islot_id (take (ci_n s) (ci_slots s)))"
  by (simp add: cinputs_inv_def cinputs_live_def)

lemma resize_ok:
  "snd (resize mem s k) \<Longrightarrow>
     fst (resize mem s k)
       = s\<lparr>ci_n := min k (ci_n s), ci_n_alloc := k,
            ci_slots := realloc_cells islot_fill (ci_slots s) k\<rparr>
     \<and> k \<noteq> 0 \<and> k * sizeof_islot \<le> SIZE_MAX"
  by (auto simp: resize_def min_def safe_mul_def split: if_splits)

lemma resize_fail:
  "\<not> snd (resize mem s k) \<Longrightarrow> fst (resize mem s k) = s\<lparr>ci_err := ci_err (fst (resize mem s k))\<rparr>"
  by (auto simp: resize_def split: if_splits)

lemma cinputs_inv_resize:
  assumes "cinputs_inv s"
  shows "cinputs_inv (fst (resize mem s k))"
proof (cases "snd (resize mem s k)")
  case False
  from resize_fail [OF False] obtain e where "fst (resize mem s k) = s\<lparr>ci_err := e\<rparr>" ..
  with assms show ?thesis by (simp add: cinputs_inv_unfold)
next
  case True
  from resize_ok [OF True]
  have r: "fst (resize mem s k)
             = s\<lparr>ci_n := min k (ci_n s), ci_n_alloc := k,
                  ci_slots := realloc_cells islot_fill (ci_slots s) k\<rparr>" ..
  from assms have n: "ci_n s \<le> length (ci_slots s)"
    and d: "distinct (map islot_id (take (ci_n s) (ci_slots s)))"
    by (simp_all add: cinputs_inv_unfold)
  have t: "take (min k (ci_n s)) (realloc_cells islot_fill (ci_slots s) k)
          = take (min k (ci_n s)) (ci_slots s)"
    using n by (intro take_realloc_cells) auto
  have "take (min k (ci_n s)) (ci_slots s) = take k (take (ci_n s) (ci_slots s))"
    by simp
  then have "distinct (map islot_id (take (min k (ci_n s)) (ci_slots s)))"
    using d distinct_take [of "map islot_id (take (ci_n s) (ci_slots s))" k]
    by (simp only: take_map)
  with t show ?thesis
    unfolding r by (simp add: cinputs_inv_unfold)
qed

lemma cinputs_inv_create: "cinputs_inv (cinputs_create mem_obj mem k)"
proof (cases "mem_obj \<and> snd (resize mem cinputs_calloc k)")
  case False
  then have "cinputs_create mem_obj mem k = cinputs_placeholder_instance"
    by (auto simp: cinputs_create_def split: prod.splits)
  then show ?thesis by (simp add: cinputs_inv_placeholder)
next
  case True
  then have "cinputs_create mem_obj mem k
               = (fst (resize mem cinputs_calloc k))
                   \<lparr>ci_default_ptr := NULL, ci_n := 0, ci_err := CERR_NONE\<rparr>"
    by (auto simp: cinputs_create_def split: prod.splits)
  moreover have "cinputs_inv (fst (resize mem cinputs_calloc k))"
    by (intro cinputs_inv_resize) (simp add: cinputs_inv_unfold cinputs_calloc_def)
  ultimately show ?thesis
    by (simp add: cinputs_inv_unfold)
qed

lemma cinputs_inv_clone:
  assumes "cinputs_inv s"
  shows "cinputs_inv (cinputs_clone mem_obj mem s)"
proof (cases "ci_err s = CERR_NONE \<and> mem_obj \<and> snd (resize mem cinputs_calloc (ci_n_alloc s))")
  case False
  then have "cinputs_clone mem_obj mem s = cinputs_placeholder_instance"
    by (auto simp: cinputs_clone_def split: prod.splits)
  then show ?thesis by (simp add: cinputs_inv_placeholder)
next
  case True
  define t where "t = fst (resize mem cinputs_calloc (ci_n_alloc s))"
  from True have c: "cinputs_clone mem_obj mem s
               = t\<lparr>ci_slots := take (ci_n s) (ci_slots s) @ drop (ci_n s) (ci_slots t),
                    ci_default_ptr := ci_default_ptr s, ci_n := ci_n s, ci_err := CERR_NONE\<rparr>"
    by (auto simp: cinputs_clone_def t_def split: prod.splits)
  from True resize_ok [of mem cinputs_calloc "ci_n_alloc s"]
  have "ci_n_alloc t = ci_n_alloc s" and "length (ci_slots t) = ci_n_alloc s"
    by (simp_all add: t_def)
  with assms show ?thesis
    unfolding c by (auto simp: cinputs_inv_unfold)
qed

lemma cinputs_live_pull_index:
  assumes "cinputs_inv s" and "ci_err s = CERR_NONE" and "i < ci_n s"
  shows "cinputs_live (cinputs_pull_index s i)
           = take i (cinputs_live s) @ drop (Suc i) (cinputs_live s)"
    and "ci_n (cinputs_pull_index s i) = ci_n s - 1"
    and "length (ci_slots (cinputs_pull_index s i)) = length (ci_slots s)"
    and "ci_n_alloc (cinputs_pull_index s i) = ci_n_alloc s"
    and "ci_err (cinputs_pull_index s i) = CERR_NONE"
  using assms take_memmove_cells [of i "ci_n s" "ci_slots s"]
    length_memmove_cells [of i "ci_n s" "ci_slots s"]
  by (simp_all add: cinputs_pull_index_def cinputs_live_def cinputs_inv_def)

lemma cinputs_inv_pull_index:
  assumes "cinputs_inv s"
  shows "cinputs_inv (cinputs_pull_index s i)"
proof (cases "ci_err s \<noteq> CERR_NONE \<or> ci_n s \<le> i")
  case True
  with assms show ?thesis by (auto simp: cinputs_pull_index_def)
next
  case False
  then have e: "ci_err s = CERR_NONE" and i: "i < ci_n s" by auto
  note l = cinputs_live_pull_index [OF assms e i]
  from assms have n: "ci_n s \<le> ci_n_alloc s" and len: "length (ci_slots s) = ci_n_alloc s"
    and d: "distinct (map islot_id (cinputs_live s))"
    by (simp_all add: cinputs_inv_def)
  have "distinct (map islot_id (take i (cinputs_live s) @ drop (Suc i) (cinputs_live s)))"
    using d by (rule distinct_map_remove_nth)
  with n len show ?thesis
    unfolding cinputs_inv_def l by simp
qed

lemma cinputs_live_pull_id:
  assumes "cinputs_inv s" and "ci_err s = CERR_NONE"
  shows "cinputs_live (cinputs_pull_id s k) = filter (\<lambda>c. islot_id c \<noteq> k) (cinputs_live s)"
    and "ci_n (cinputs_pull_id s k) = length (filter (\<lambda>c. islot_id c \<noteq> k) (cinputs_live s))"
    and "length (ci_slots (cinputs_pull_id s k)) = length (ci_slots s)"
    and "ci_n_alloc (cinputs_pull_id s k) = ci_n_alloc s"
    and "ci_err (cinputs_pull_id s k) = CERR_NONE"
    and "fst (cinputs_find s k) \<Longrightarrow> ci_n (cinputs_pull_id s k) < ci_n s"
proof -
  from assms have len: "length (cinputs_live s) = ci_n s"
    and d: "distinct (map islot_id (cinputs_live s))"
    by (simp_all add: cinputs_inv_def cinputs_live_def)
  have "cinputs_live (cinputs_pull_id s k) = filter (\<lambda>c. islot_id c \<noteq> k) (cinputs_live s)
      \<and> ci_n (cinputs_pull_id s k) = length (filter (\<lambda>c. islot_id c \<noteq> k) (cinputs_live s))
      \<and> length (ci_slots (cinputs_pull_id s k)) = length (ci_slots s)
      \<and> ci_n_alloc (cinputs_pull_id s k) = ci_n_alloc s
      \<and> ci_err (cinputs_pull_id s k) = CERR_NONE
      \<and> (fst (cinputs_find s k) \<longrightarrow> ci_n (cinputs_pull_id s k) < ci_n s)" (is ?all)
  proof (cases "fst (cinputs_find s k)")
    case False
    note a = cinputs_find_absent [OF False assms(2)]
    from a(1) have "cinputs_pull_id s k = s"
      by (simp add: cinputs_pull_id_def)
    with a(2) False assms(2) len show ?thesis
      by (simp add: filter_absent)
  next
    case True
    from cinputs_find_found [OF True] obtain i
      where f: "cinputs_find s k = (True, Some i)" and i: "i < length (cinputs_live s)"
        and k: "islot_id (cinputs_live s ! i) = k"
      by auto
    from f have p: "cinputs_pull_id s k = cinputs_pull_index s i"
      by (simp add: cinputs_pull_id_def)
    from i len have i': "i < ci_n s" by simp
    note l = cinputs_live_pull_index [OF assms i']
    have r: "take i (cinputs_live s) @ drop (Suc i) (cinputs_live s)
            = filter (\<lambda>c. islot_id c \<noteq> k) (cinputs_live s)"
      using remove_nth_eq_filter [OF d i] k by simp
    have "length (take i (cinputs_live s) @ drop (Suc i) (cinputs_live s)) = ci_n s - 1"
      using i len by simp
    with r have "length (filter (\<lambda>c. islot_id c \<noteq> k) (cinputs_live s)) = ci_n s - 1"
      by simp
    with l r i' show ?thesis
      unfolding p by simp
  qed
  then show "cinputs_live (cinputs_pull_id s k) = filter (\<lambda>c. islot_id c \<noteq> k) (cinputs_live s)"
    and "ci_n (cinputs_pull_id s k) = length (filter (\<lambda>c. islot_id c \<noteq> k) (cinputs_live s))"
    and "length (ci_slots (cinputs_pull_id s k)) = length (ci_slots s)"
    and "ci_n_alloc (cinputs_pull_id s k) = ci_n_alloc s"
    and "ci_err (cinputs_pull_id s k) = CERR_NONE"
    and "fst (cinputs_find s k) \<Longrightarrow> ci_n (cinputs_pull_id s k) < ci_n s"
    by simp_all
qed

lemma cinputs_inv_pull_id:
  assumes "cinputs_inv s"
  shows "cinputs_inv (cinputs_pull_id s k)"
proof (cases "fst (cinputs_find s k)")
  case False
  then have "cinputs_pull_id s k = s"
    by (auto simp: cinputs_pull_id_def split: prod.splits bool.splits option.splits)
  with assms show ?thesis by simp
next
  case True
  from cinputs_find_found [OF True] obtain i
    where "cinputs_find s k = (True, Some i)" by auto
  then have "cinputs_pull_id s k = cinputs_pull_index s i"
    by (simp add: cinputs_pull_id_def)
  with assms show ?thesis by (simp add: cinputs_inv_pull_index)
qed

text \<open>What a push does to the live entries of an error-free table.\<close>

lemma cinputs_live_push:
  fixes k :: "32 word"
  assumes "cinputs_inv s" and "ci_err s = CERR_NONE"
  defines "rest \<equiv> filter (\<lambda>c. islot_id c \<noteq> k) (cinputs_live s)"
  shows "cinputs_live (cinputs_push s k x y p)
           = (if length rest < ci_n_alloc s
              then rest @ [\<lparr>islot_id = k, islot_x = word_of_int x, islot_y = word_of_int y,
                             islot_ptr = p\<rparr>]
              else rest)"
    and "ci_n (cinputs_push s k x y p) = length (cinputs_live (cinputs_push s k x y p))"
    and "length (ci_slots (cinputs_push s k x y p)) = length (ci_slots s)"
    and "ci_n_alloc (cinputs_push s k x y p) = ci_n_alloc s"
    and "ci_err (cinputs_push s k x y p) = CERR_NONE"
proof -
  define s1 where "s1 = cinputs_pull_id s k"
  note l = cinputs_live_pull_id [OF assms(1,2), of k, folded s1_def rest_def]
  from assms(1) have len: "length (ci_slots s) = ci_n_alloc s"
    by (simp add: cinputs_inv_def)
  have live1: "take (ci_n s1) (ci_slots s1) = rest"
    using l(1) by (simp add: cinputs_live_def)
  show "cinputs_live (cinputs_push s k x y p)
           = (if length rest < ci_n_alloc s
              then rest @ [\<lparr>islot_id = k, islot_x = word_of_int x, islot_y = word_of_int y,
                             islot_ptr = p\<rparr>]
              else rest)"
    using assms(2) l live1 len
    by (simp add: cinputs_push_def Let_def s1_def [symmetric] cinputs_live_def
        take_Suc_conv_app_nth)
  then show "ci_n (cinputs_push s k x y p) = length (cinputs_live (cinputs_push s k x y p))"
    using assms(2) l live1 len
    by (simp add: cinputs_push_def Let_def s1_def [symmetric])
  show "length (ci_slots (cinputs_push s k x y p)) = length (ci_slots s)"
    and "ci_n_alloc (cinputs_push s k x y p) = ci_n_alloc s"
    and "ci_err (cinputs_push s k x y p) = CERR_NONE"
    using assms(2) l
    by (simp_all add: cinputs_push_def Let_def s1_def [symmetric])
qed

lemma cinputs_inv_push:
  assumes "cinputs_inv s"
  shows "cinputs_inv (cinputs_push s k x y p)"
proof (cases "ci_err s = CERR_NONE")
  case False
  with assms show ?thesis by (simp add: cinputs_push_def)
next
  case True
  note l = cinputs_live_push [OF assms True, of k x y p]
  from assms have len: "length (ci_slots s) = ci_n_alloc s"
    and d: "distinct (map islot_id (cinputs_live s))"
    by (simp_all add: cinputs_inv_def)
  have "distinct (map islot_id (cinputs_live (cinputs_push s k x y p)))"
    unfolding l(1) using d by (auto simp: distinct_map_filter)
  moreover have "length (filter (\<lambda>c. islot_id c \<noteq> k) (cinputs_live s)) \<le> ci_n_alloc s"
    using assms length_filter_le [of "\<lambda>c. islot_id c \<noteq> k" "cinputs_live s"]
    by (simp add: cinputs_inv_def cinputs_live_def)
  then have "length (cinputs_live (cinputs_push s k x y p)) \<le> ci_n_alloc s"
    unfolding l(1) by simp
  ultimately show ?thesis
    using l(2,3,4) len by (simp add: cinputs_inv_def)
qed

lemma cinputs_inv_call:
  assumes "cinputs_inv s"
  shows "cinputs_inv (fst (cinputs_call c s))"
proof (cases c)
  case I_clear
  with assms show ?thesis by (simp add: cinputs_clear_def cinputs_inv_unfold)
next
  case (I_pull_id k)
  with assms show ?thesis by (simp add: cinputs_inv_pull_id)
next
  case (I_pull_index i)
  with assms show ?thesis by (simp add: cinputs_inv_pull_index)
next
  case (I_push k x y p)
  with assms show ?thesis by (simp add: cinputs_inv_push)
next
  case I_repair
  with assms show ?thesis by (simp add: cinputs_repair_def cinputs_inv_unfold)
next
  case (I_resize mem k)
  with assms show ?thesis by (simp add: cinputs_resize_def cinputs_inv_resize)
next
  case (I_set_default_ptr p)
  with assms show ?thesis by (simp add: cinputs_set_default_ptr_def cinputs_inv_unfold)
qed (use assms in simp_all)

lemma cinputs_reach_inv: "s \<in> cinputs_reach \<Longrightarrow> cinputs_inv s"
  by (induction rule: cinputs_reach.induct)
    (simp_all add: cinputs_inv_create cinputs_inv_clone cinputs_inv_call)






section \<open>Reference registry: what the code maintains, and the counts\<close>

lemma scan_cong_map: "map P xs = map P ys \<Longrightarrow> scan P xs j = scan P ys j"
proof (induction xs arbitrary: ys j)
  case Nil
  then show ?case by simp
next
  case (Cons x xs)
  then obtain y ys' where "ys = y # ys'" by (cases ys) auto
  with Cons show ?case by auto
qed

lemma scan_append:
  "scan P (xs @ ys) j
     = (case scan P xs j of Some i \<Rightarrow> Some i | None \<Rightarrow> scan P ys (j + length xs))"
  by (induction xs arbitrary: j) (auto split: option.splits)

lemma scan_first:
  "distinct (map f xs) \<Longrightarrow> i < length xs \<Longrightarrow> scan (\<lambda>c. f c = f (xs ! i)) xs j = Some (j + i)"
proof (induction xs arbitrary: i j)
  case Nil
  then show ?case by simp
next
  case (Cons x xs)
  show ?case
  proof (cases i)
    case 0
    then show ?thesis by simp
  next
    case (Suc m)
    with Cons.prems have "xs ! m \<in> set xs" by simp
    with Cons.prems have "f x \<noteq> f (xs ! m)" by (force simp: image_iff)
    with Cons Suc show ?thesis by simp
  qed
qed

lemma nth_realloc_cells:
  "i < length cells \<Longrightarrow> i < k \<Longrightarrow> realloc_cells f cells k ! i = cells ! i"
  by (simp add: realloc_cells_def nth_append)

lemma cref_inv_unfold:
  "cref_inv s \<longleftrightarrow>
     cr_n s \<le> cr_n_alloc s \<and> length (cr_slots s) = cr_n_alloc s
     \<and> cr_n_alloc s * sizeof_rslot \<le> SIZE_MAX
     \<and> (cr_err s = CERR_INVALID \<or> 1 \<le> cr_n_alloc s)
     \<and> distinct (map rslot_ptr (take (cr_n s) (cr_slots s)))
     \<and> list_all (\<lambda>c. rslot_n_ref c \<noteq> 0) (take (cr_n s) (cr_slots s))"
  by (simp add: cref_inv_def cref_live_def)

lemma cref_inv_placeholder: "cref_inv cref_placeholder_instance"
  by (simp add: cref_inv_unfold cref_placeholder_instance_def)

lemma grow_cref_ok:
  "snd (grow_cref mem s k) \<Longrightarrow>
     fst (grow_cref mem s k)
       = (if k \<le> cr_n_alloc s then s
          else s\<lparr>cr_n_alloc := k, cr_slots := realloc_cells rslot_fill (cr_slots s) k\<rparr>)
     \<and> (cr_n_alloc s < k \<longrightarrow> k * sizeof_rslot \<le> SIZE_MAX)"
  by (auto simp: grow_cref_def safe_mul_def split: if_splits)

lemma grow_cref_fail:
  "\<not> snd (grow_cref mem s k) \<Longrightarrow>
     fst (grow_cref mem s k) = s\<lparr>cr_err := cr_err (fst (grow_cref mem s k))\<rparr>
     \<and> cr_err (fst (grow_cref mem s k)) \<noteq> CERR_NONE"
  by (auto simp: grow_cref_def split: if_splits)

lemma cref_inv_err:
  "cref_inv s \<Longrightarrow> cr_err s \<noteq> CERR_INVALID \<Longrightarrow> cref_inv (s\<lparr>cr_err := e\<rparr>)"
  by (auto simp: cref_inv_unfold)

lemma cref_inv_grow:
  assumes "cref_inv s" and "cr_err s \<noteq> CERR_INVALID"
  shows "cref_inv (fst (grow_cref mem s k))"
proof (cases "snd (grow_cref mem s k)")
  case False
  from grow_cref_fail [OF False]
  obtain e where "fst (grow_cref mem s k) = s\<lparr>cr_err := e\<rparr>" by blast
  with assms show ?thesis by (simp add: cref_inv_err)
next
  case True
  note g = grow_cref_ok [OF True]
  show ?thesis
  proof (cases "k \<le> cr_n_alloc s")
    case True
    with g assms show ?thesis by simp
  next
    case False
    from assms have n: "cr_n s \<le> length (cr_slots s)" and len: "length (cr_slots s) = cr_n_alloc s"
      by (simp_all add: cref_inv_unfold)
    have "take (cr_n s) (realloc_cells rslot_fill (cr_slots s) k) = take (cr_n s) (cr_slots s)"
      using n len False by (intro take_realloc_cells) auto
    with g False assms show ?thesis
      by (auto simp: cref_inv_unfold)
  qed
qed

lemma cref_inv_create: "cref_inv (cref_create mem_obj mem)"
proof (cases "mem_obj \<and> snd (grow_cref mem cref_calloc 1)")
  case False
  then have "cref_create mem_obj mem = cref_placeholder_instance"
    by (auto simp: cref_create_def split: prod.splits)
  then show ?thesis by (simp add: cref_inv_placeholder)
next
  case True
  then have c: "cref_create mem_obj mem
               = (fst (grow_cref mem cref_calloc 1))
                   \<lparr>cr_n := 0, cr_default_ptr := NULL, cr_err := CERR_NONE\<rparr>"
    by (auto simp: cref_create_def split: prod.splits)
  from True grow_cref_ok [of mem cref_calloc 1]
  show ?thesis
    unfolding c by (simp add: cref_inv_unfold cref_calloc_def)
qed

lemma cref_inv_clone:
  assumes "cref_inv s"
  shows "cref_inv (cref_clone mem_obj mem s)"
proof (cases "cr_err s = CERR_NONE \<and> mem_obj \<and> snd (grow_cref mem cref_calloc (cr_n_alloc s))")
  case False
  then have "cref_clone mem_obj mem s = cref_placeholder_instance"
    by (auto simp: cref_clone_def split: prod.splits)
  then show ?thesis by (simp add: cref_inv_placeholder)
next
  case True
  define t where "t = fst (grow_cref mem cref_calloc (cr_n_alloc s))"
  from True have c: "cref_clone mem_obj mem s
               = t\<lparr>cr_slots := take (cr_n s) (cr_slots s) @ drop (cr_n s) (cr_slots t),
                    cr_n := cr_n s, cr_default_ptr := cr_default_ptr s, cr_err := CERR_NONE\<rparr>"
    by (auto simp: cref_clone_def t_def split: prod.splits)
  from True assms have "1 \<le> cr_n_alloc s"
    by (auto simp: cref_inv_unfold)
  with True grow_cref_ok [of mem cref_calloc "cr_n_alloc s"]
  have "cr_n_alloc t = cr_n_alloc s" and "length (cr_slots t) = cr_n_alloc s"
    by (simp_all add: t_def cref_calloc_def)
  with assms True show ?thesis
    unfolding c by (auto simp: cref_inv_unfold)
qed


lemma cref_find_found:
  assumes "fst (cref_find s p) \<noteq> 0"
  shows "\<exists>i. cref_find s p = (rslot_n_ref (cref_live s ! i), Some i) \<and> cr_err s = CERR_NONE
             \<and> i < length (cref_live s) \<and> i < cr_n s \<and> cref_live s ! i = cr_slots s ! i
             \<and> rslot_ptr (cref_live s ! i) = p
             \<and> scan (\<lambda>c. rslot_ptr c = p) (cref_live s) 0 = Some i"
proof -
  from assms have e: "cr_err s = CERR_NONE"
    by (auto simp: cref_find_def split: if_splits)
  with assms obtain i where sc: "scan (\<lambda>c. rslot_ptr c = p) (cref_live s) 0 = Some i"
    by (auto simp: cref_find_def cref_live_def split: option.splits)
  from scan_Some [OF sc]
  have i: "i < length (cref_live s)" and "rslot_ptr (cref_live s ! i) = p"
    by auto
  moreover from i have "i < cr_n s" and "cref_live s ! i = cr_slots s ! i"
    by (simp_all add: cref_live_def)
  ultimately show ?thesis
    using e sc by (simp add: cref_find_def cref_live_def)
qed

lemma cref_find_absent:
  assumes "fst (cref_find s p) = 0" and "cr_err s = CERR_NONE" and "cref_inv s"
  shows "cref_find s p = (0, None)" and "p \<notin> rslot_ptr ` set (cref_live s)"
    and "scan (\<lambda>c. rslot_ptr c = p) (cref_live s) 0 = None"
proof -
  have sc: "scan (\<lambda>c. rslot_ptr c = p) (cref_live s) 0 = None"
  proof (cases "scan (\<lambda>c. rslot_ptr c = p) (cref_live s) 0")
    case None
    then show ?thesis .
  next
    case (Some i)
    from scan_Some [OF Some] have i: "i < length (cref_live s)" by simp
    then have "cref_live s ! i \<in> set (cref_live s)" by simp
    with assms(3) have "rslot_n_ref (cref_live s ! i) \<noteq> 0"
      by (auto simp: cref_inv_def list_all_iff)
    moreover from i have "cref_live s ! i = cr_slots s ! i"
      by (simp add: cref_live_def)
    ultimately have "fst (cref_find s p) \<noteq> 0"
      using Some assms(2) by (simp add: cref_find_def cref_live_def)
    with assms(1) show ?thesis by simp
  qed
  then show "scan (\<lambda>c. rslot_ptr c = p) (cref_live s) 0 = None" .
  from sc assms(2) show "cref_find s p = (0, None)"
    by (simp add: cref_find_def cref_live_def)
  from sc show "p \<notin> rslot_ptr ` set (cref_live s)"
    by (auto simp: scan_None_iff)
qed

text \<open>The count \<open>cref_find\<close> reports, from the live entries.\<close>

lemma cref_find_index:
  assumes "cref_inv s" and "cr_err s = CERR_NONE" and "i < cr_n s"
  shows "cref_find s (rslot_ptr (cr_slots s ! i)) = (rslot_n_ref (cr_slots s ! i), Some i)"
proof -
  from assms have d: "distinct (map rslot_ptr (cref_live s))"
    and i: "i < length (cref_live s)" and l: "cref_live s ! i = cr_slots s ! i"
    by (simp_all add: cref_inv_def cref_live_def)
  from scan_first [OF d i, of 0] l assms(2) show ?thesis
    by (simp add: cref_find_def cref_live_def)
qed



lemma scan_find:
  "(case scan P xs j of None \<Rightarrow> d | Some i \<Rightarrow> g (xs ! (i - j)))
     = (case find P xs of None \<Rightarrow> d | Some c \<Rightarrow> g c)"
proof (induction xs arbitrary: j)
  case Nil
  show ?case by simp
next
  case (Cons x xs)
  show ?case
  proof (cases "P x")
    case True
    then show ?thesis by simp
  next
    case False
    have "(case scan P xs (Suc j) of None \<Rightarrow> d | Some i \<Rightarrow> g ((x # xs) ! (i - j)))
            = (case scan P xs (Suc j) of None \<Rightarrow> d | Some i \<Rightarrow> g (xs ! (i - Suc j)))"
    proof (cases "scan P xs (Suc j)")
      case None
      then show ?thesis by simp
    next
      case (Some i)
      from scan_Some [OF Some] have "Suc j \<le> i" by simp
      then have "i - j = Suc (i - Suc j)" by simp
      with Some show ?thesis by simp
    qed
    with False Cons.IH [of "Suc j"] show ?thesis by simp
  qed
qed

lemma cref_find_count_in:
  assumes "cr_err s = CERR_NONE"
  shows "fst (cref_find s q) = count_in (cref_live s) q"
proof -
  have "fst (cref_find s q)
          = (case scan (\<lambda>c. rslot_ptr c = q) (cref_live s) 0 of
               None \<Rightarrow> 0 | Some i \<Rightarrow> rslot_n_ref (cref_live s ! (i - 0)))"
  proof (cases "scan (\<lambda>c. rslot_ptr c = q) (cref_live s) 0")
    case None
    with assms show ?thesis by (simp add: cref_find_def cref_live_def)
  next
    case (Some i)
    from scan_Some [OF Some] have "i < length (cref_live s)" by simp
    then have "cref_live s ! i = cr_slots s ! i" by (simp add: cref_live_def)
    with Some assms show ?thesis by (simp add: cref_find_def cref_live_def)
  qed
  then show ?thesis
    unfolding count_in_def scan_find .
qed

lemma count_in_Nil: "count_in [] q = 0"
  by (simp add: count_in_def)

lemma count_in_Cons:
  "count_in (c # cs) q = (if rslot_ptr c = q then rslot_n_ref c else count_in cs q)"
  by (simp add: count_in_def)

lemma count_in_absent: "q \<notin> rslot_ptr ` set cs \<Longrightarrow> count_in cs q = 0"
  by (induction cs) (auto simp: count_in_Nil count_in_Cons)

lemma count_in_append:
  "count_in (cs @ [e]) q
     = (if q \<in> rslot_ptr ` set cs then count_in cs q
        else if rslot_ptr e = q then rslot_n_ref e else 0)"
  by (induction cs) (auto simp: count_in_Nil count_in_Cons)

lemma count_in_update:
  "distinct (map rslot_ptr cs) \<Longrightarrow> i < length cs \<Longrightarrow> rslot_ptr e = rslot_ptr (cs ! i) \<Longrightarrow>
     count_in (cs[i := e]) q = (if q = rslot_ptr e then rslot_n_ref e else count_in cs q)"
proof (induction cs arbitrary: i)
  case Nil
  then show ?case by simp
next
  case (Cons c cs)
  show ?case
  proof (cases i)
    case 0
    with Cons.prems show ?thesis by (auto simp: count_in_Cons)
  next
    case (Suc m)
    with Cons.prems have "cs ! m \<in> set cs" by simp
    with Cons.prems Suc have n: "rslot_ptr c \<noteq> rslot_ptr e" by (force simp: image_iff)
    from Cons.prems Suc have
      "count_in (cs[m := e]) q = (if q = rslot_ptr e then rslot_n_ref e else count_in cs q)"
      by (intro Cons.IH) simp_all
    with n Suc show ?thesis by (auto simp: count_in_Cons)
  qed
qed

lemma count_in_filter:
  "count_in (filter (\<lambda>c. rslot_ptr c \<noteq> k) cs) q = (if q = k then 0 else count_in cs q)"
  by (induction cs) (auto simp: count_in_Nil count_in_Cons)


lemma wrap_small: "v \<le> SIZE_MAX \<Longrightarrow> wrap v = v"
  by (simp add: wrap_def)

lemma cref_push_error:
  "cr_err s \<noteq> CERR_NONE \<Longrightarrow> cref_push mem s p = s"
  by (simp add: cref_push_def)

text \<open>A push of a pointer that is present: its count goes up by one.\<close>

lemma cref_push_found:
  assumes inv: "cref_inv s" and f: "fst (cref_find s p) \<noteq> 0"
    and ok: "cr_err (cref_push mem s p) = CERR_NONE"
  shows "cref_inv (cref_push mem s p)"
    and "count_in (cref_live (cref_push mem s p)) q
           = (if q = p then count_in (cref_live s) p + 1 else count_in (cref_live s) q)"
    and "count_in (cref_live s) p \<noteq> UINT_MAX"
proof -
  from cref_find_found [OF f] obtain i
    where fi0: "cref_find s p = (rslot_n_ref (cref_live s ! i), Some i)"
      and e: "cr_err s = CERR_NONE" and i: "i < length (cref_live s)" and i': "i < cr_n s"
      and l: "cref_live s ! i = cr_slots s ! i" and pi: "rslot_ptr (cref_live s ! i) = p"
    by blast
  define c where "c = rslot_n_ref (cr_slots s ! i)"
  from fi0 have fi: "cref_find s p = (c, Some i)"
    by (simp add: c_def l)
  have ci: "rslot_n_ref (cr_slots s ! i) = c"
    by (simp add: c_def)
  define e' where "e' = (cr_slots s ! i)\<lparr>rslot_n_ref := c + 1\<rparr>"
  from inv have d: "distinct (map rslot_ptr (cref_live s))"
    by (simp add: cref_inv_def)
  from f fi have "c \<noteq> 0" by simp
  then have pos: "0 < c" by (simp add: word_gt_0)
  have cnt: "count_in (cref_live s) p = c"
    using cref_find_count_in [OF e, of p] fi by simp
  have m: "c \<noteq> UINT_MAX"
  proof
    assume "c = UINT_MAX"
    with fi pos e ci have "cr_err (cref_push mem s p) = CERR_OVERFLOW"
      by (simp add: cref_push_def)
    with ok show False by simp
  qed
  with cnt show "count_in (cref_live s) p \<noteq> UINT_MAX" by simp
  from fi pos e ci m have p: "cref_push mem s p = s\<lparr>cr_slots := (cr_slots s)[i := e']\<rparr>"
    by (simp add: cref_push_def e'_def)
  have live: "cref_live (cref_push mem s p) = (cref_live s)[i := e']"
    unfolding p by (simp add: cref_live_def take_update_swap)
  have pe: "rslot_ptr e' = rslot_ptr (cref_live s ! i)"
    by (simp add: e'_def l)
  from count_in_update [OF d i pe, of q] pi cnt
  show "count_in (cref_live (cref_push mem s p) ) q
           = (if q = p then count_in (cref_live s) p + 1 else count_in (cref_live s) q)"
    unfolding live by (auto simp: e'_def l)
  from m have c1: "c + 1 \<noteq> 0"
    unfolding UINT_MAX_def eq_neg_iff_add_eq_0 .
  have "map rslot_ptr ((cref_live s)[i := e']) = map rslot_ptr (cref_live s)"
    using pe by (simp add: map_update list_update_same_conv i)
  with d have d': "distinct (map rslot_ptr (cref_live (cref_push mem s p)))"
    unfolding live by simp
  have "set ((cref_live s)[i := e']) \<subseteq> insert e' (set (cref_live s))"
    by (rule set_update_subset_insert)
  with inv c1 have a': "list_all (\<lambda>c. rslot_n_ref c \<noteq> 0) (cref_live (cref_push mem s p))"
    unfolding live by (auto simp: cref_inv_def list_all_iff e'_def)
  from inv d' a' show "cref_inv (cref_push mem s p)"
    unfolding cref_inv_def by (simp add: p)
qed


text \<open>A push of a pointer that is absent: a new entry with count 1 is appended.\<close>

lemma cref_push_absent:
  assumes inv: "cref_inv s" and e: "cr_err s = CERR_NONE" and f: "fst (cref_find s p) = 0"
    and ok: "cr_err (cref_push mem s p) = CERR_NONE"
  shows "cref_inv (cref_push mem s p)"
    and "cref_live (cref_push mem s p) = cref_live s @ [\<lparr>rslot_ptr = p, rslot_n_ref = 1\<rparr>]"
    and "p \<notin> rslot_ptr ` set (cref_live s)"
proof -
  note a = cref_find_absent [OF f e inv]
  from a(2) show "p \<notin> rslot_ptr ` set (cref_live s)" .
  from inv e have n: "cr_n s \<le> cr_n_alloc s" and len: "length (cr_slots s) = cr_n_alloc s"
    and sz: "cr_n_alloc s * sizeof_rslot \<le> SIZE_MAX" and one: "1 \<le> cr_n_alloc s"
    and d: "distinct (map rslot_ptr (cref_live s))"
    and nz: "list_all (\<lambda>c. rslot_n_ref c \<noteq> 0) (cref_live s)"
    by (auto simp: cref_inv_def)
  define r where "r = (if cr_n s \<ge> cr_n_alloc s
                      then (if safe_mul (cr_n_alloc s) 2 = None
                            then (s\<lparr>cr_err := CERR_OVERFLOW\<rparr>, False)
                            else grow_cref mem s (wrap (cr_n_alloc s * 2)))
                      else (s, True))"
  define t where "t = fst r"
  define new where "new = \<lparr>rslot_ptr = p, rslot_n_ref = 1\<rparr>"
  have push: "cref_push mem s p
                = (if \<not> snd r then t
                   else t\<lparr>cr_slots := (cr_slots t)[cr_n t := new], cr_n := cr_n t + 1\<rparr>)"
    using e a(1) by (simp add: cref_push_def r_def t_def new_def split: prod.splits)
  have room: "snd r \<and> cr_n t = cr_n s \<and> cr_n s < cr_n_alloc t
              \<and> length (cr_slots t) = cr_n_alloc t
              \<and> cr_n_alloc t * sizeof_rslot \<le> SIZE_MAX
              \<and> take (cr_n s) (cr_slots t) = take (cr_n s) (cr_slots s)
              \<and> cr_err t = CERR_NONE"
  proof (cases "cr_n s \<ge> cr_n_alloc s")
    case False
    with len sz e show ?thesis by (simp add: r_def t_def)
  next
    case True
    from sz have two: "cr_n_alloc s * 2 \<le> SIZE_MAX"
      by (simp add: sizeof_rslot_def)
    with True have r: "r = grow_cref mem s (cr_n_alloc s * 2)"
      by (simp add: r_def safe_mul_Some wrap_small)
    have g: "snd (grow_cref mem s (cr_n_alloc s * 2))"
    proof (rule ccontr)
      assume ng: "\<not> snd (grow_cref mem s (cr_n_alloc s * 2))"
      from grow_cref_fail [OF ng] have "cr_err t \<noteq> CERR_NONE"
        by (simp add: t_def r)
      moreover from ng have "cref_push mem s p = t"
        by (simp add: push r)
      ultimately show False
        using ok by simp
    qed
    from grow_cref_ok [OF g] one
    have t: "t = s\<lparr>cr_n_alloc := cr_n_alloc s * 2,
                    cr_slots := realloc_cells rslot_fill (cr_slots s) (cr_n_alloc s * 2)\<rparr>"
      and "cr_n_alloc s * 2 * sizeof_rslot \<le> SIZE_MAX"
      by (simp_all add: t_def r)
    moreover have "take (cr_n s) (realloc_cells rslot_fill (cr_slots s) (cr_n_alloc s * 2))
                     = take (cr_n s) (cr_slots s)"
      using n len by (intro take_realloc_cells) simp_all
    ultimately show ?thesis
      using g n one e by (simp add: r)
  qed
  from room have push': "cref_push mem s p
                = t\<lparr>cr_slots := (cr_slots t)[cr_n s := new], cr_n := cr_n s + 1\<rparr>"
    by (simp add: push)
  from room show live: "cref_live (cref_push mem s p) = cref_live s @ [\<lparr>rslot_ptr = p, rslot_n_ref = 1\<rparr>]"
    unfolding push' by (simp add: cref_live_def take_Suc_conv_app_nth new_def)
  from d a(2) have d': "distinct (map rslot_ptr (cref_live s @ [new]))"
    by (simp add: new_def)
  from nz have nz': "list_all (\<lambda>c. rslot_n_ref c \<noteq> 0) (cref_live s @ [new])"
    by (simp add: new_def)
  from room d' nz' show "cref_inv (cref_push mem s p)"
    unfolding cref_inv_def live new_def [symmetric] by (simp add: push')
qed

lemma cref_push_count:
  assumes inv: "cref_inv s" and e: "cr_err s = CERR_NONE"
    and ok: "cr_err (cref_push mem s p) = CERR_NONE"
  shows "cref_inv (cref_push mem s p)"
    and "unat (fst (cref_find (cref_push mem s p) q))
           = unat (fst (cref_find s q)) + (if q = p then 1 else 0)"
proof -
  show "cref_inv (cref_push mem s p)"
    using cref_push_found(1) [OF inv _ ok] cref_push_absent(1) [OF inv e _ ok]
    by (cases "fst (cref_find s p) = 0") auto
  show "unat (fst (cref_find (cref_push mem s p) q))
           = unat (fst (cref_find s q)) + (if q = p then 1 else 0)"
  proof (cases "fst (cref_find s p) = 0")
    case True
    note a = cref_push_absent [OF inv e True ok]
    from a(3) have "count_in (cref_live s) p = 0" by (rule count_in_absent)
    moreover have "q \<notin> rslot_ptr ` set (cref_live s) \<Longrightarrow> count_in (cref_live s) q = 0"
      by (rule count_in_absent)
    ultimately show ?thesis
      unfolding cref_find_count_in [OF e] cref_find_count_in [OF ok] a(2) count_in_append
      using a(3) by auto
  next
    case False
    note a = cref_push_found [OF inv False ok]
    from a(3) have "count_in (cref_live s) p + 1 \<noteq> 0"
      unfolding UINT_MAX_def eq_neg_iff_add_eq_0 .
    then have "unat (count_in (cref_live s) p + 1) = Suc (unat (count_in (cref_live s) p))"
      by (simp add: unatSuc add.commute)
    then show ?thesis
      unfolding cref_find_count_in [OF e] cref_find_count_in [OF ok] a(2)
      by simp
  qed
qed


lemma cref_live_pull:
  assumes "cr_n s \<le> length (cr_slots s)" and "i < cr_n s"
  shows "cref_live (pull s i) = take i (cref_live s) @ drop (Suc i) (cref_live s)"
    and "cr_n (pull s i) = cr_n s - 1"
    and "length (cr_slots (pull s i)) = length (cr_slots s)"
    and "cr_n_alloc (pull s i) = cr_n_alloc s"
    and "cr_err (pull s i) = cr_err s"
  using assms take_memmove_cells [of i "cr_n s" "cr_slots s"]
    length_memmove_cells [of i "cr_n s" "cr_slots s"]
  by (simp_all add: pull_def cref_live_def)

lemma cref_inv_pull:
  assumes "cref_inv s" and "i < cr_n s"
  shows "cref_inv (pull s i)"
proof -
  from assms have n: "cr_n s \<le> length (cr_slots s)"
    by (simp add: cref_inv_unfold)
  note l = cref_live_pull [OF n assms(2)]
  from assms have d: "distinct (map rslot_ptr (cref_live s))"
    and nz: "list_all (\<lambda>c. rslot_n_ref c \<noteq> 0) (cref_live s)"
    by (simp_all add: cref_inv_def)
  have d': "distinct (map rslot_ptr (take i (cref_live s) @ drop (Suc i) (cref_live s)))"
    using d by (rule distinct_map_remove_nth)
  have nz': "list_all (\<lambda>c. rslot_n_ref c \<noteq> 0) (take i (cref_live s) @ drop (Suc i) (cref_live s))"
    using nz set_remove_nth_subset [of i "cref_live s"] by (auto simp: list_all_iff)
  from assms d' nz' show ?thesis
    unfolding cref_inv_def l by (auto simp: cref_inv_unfold)
qed

lemma count_in_nth:
  assumes "distinct (map rslot_ptr cs)" and "i < length cs"
  shows "count_in cs (rslot_ptr (cs ! i)) = rslot_n_ref (cs ! i)"
  using count_in_update [OF assms, of "cs ! i" "rslot_ptr (cs ! i)"] by simp

text \<open>
  \<open>cref_pull_index\<close> on a live index of an error-free registry: the count of the
  pointer in that slot goes down by one, and the entry disappears when the count
  reaches zero.
\<close>

lemma cref_pull_index_count:
  assumes inv: "cref_inv s" and e: "cr_err s = CERR_NONE" and i: "i < cr_n s"
  shows "cref_inv (cref_pull_index s i)"
    and "cr_err (cref_pull_index s i) = CERR_NONE"
    and "count_in (cref_live (cref_pull_index s i)) q
           = (if q = rslot_ptr (cr_slots s ! i) then rslot_n_ref (cr_slots s ! i) - 1
              else count_in (cref_live s) q)"
proof -
  define p where "p = rslot_ptr (cr_slots s ! i)"
  define c where "c = rslot_n_ref (cr_slots s ! i) - 1"
  define e' where "e' = (cr_slots s ! i)\<lparr>rslot_n_ref := c\<rparr>"
  define s1 where "s1 = s\<lparr>cr_slots := (cr_slots s)[i := e']\<rparr>"
  from inv i have n: "cr_n s \<le> length (cr_slots s)" and il: "i < length (cref_live s)"
    and l: "cref_live s ! i = cr_slots s ! i"
    and d: "distinct (map rslot_ptr (cref_live s))"
    and nz: "list_all (\<lambda>c. rslot_n_ref c \<noteq> 0) (cref_live s)"
    by (simp_all add: cref_inv_def cref_live_def)
  have pe: "rslot_ptr e' = rslot_ptr (cref_live s ! i)"
    by (simp add: e'_def l)
  have live1: "cref_live s1 = (cref_live s)[i := e']"
    by (simp add: s1_def cref_live_def take_update_swap)
  have pi: "cref_pull_index s i = (if c > 0 then s1 else pull s1 i)"
    using e i by (simp add: cref_pull_index_def Let_def c_def e'_def s1_def)
  have "map rslot_ptr ((cref_live s)[i := e']) = map rslot_ptr (cref_live s)"
    using pe by (simp add: map_update list_update_same_conv il)
  with d have d1: "distinct (map rslot_ptr (cref_live s1))"
    unfolding live1 by simp
  have cnt1: "count_in (cref_live s1) q = (if q = p then c else count_in (cref_live s) q)"
    unfolding live1 using count_in_update [OF d il pe, of q]
    by (simp add: e'_def p_def l)
  have "cref_inv (cref_pull_index s i) \<and> cr_err (cref_pull_index s i) = CERR_NONE
        \<and> count_in (cref_live (cref_pull_index s i)) q
             = (if q = p then c else count_in (cref_live s) q)"
  proof (cases "c > 0")
    case True
    then have c0: "c \<noteq> 0" by simp
    have "set ((cref_live s)[i := e']) \<subseteq> insert e' (set (cref_live s))"
      by (rule set_update_subset_insert)
    with nz c0 have "list_all (\<lambda>c. rslot_n_ref c \<noteq> 0) (cref_live s1)"
      unfolding live1 by (auto simp: list_all_iff e'_def)
    with inv d1 have "cref_inv s1"
      unfolding cref_inv_def by (simp add: s1_def)
    with True cnt1 e show ?thesis
      by (simp add: pi s1_def)
  next
    case False
    then have c0: "c = 0" by (simp add: word_gt_0)
    from n i have n1: "cr_n s1 \<le> length (cr_slots s1)" and i1: "i < cr_n s1"
      by (simp_all add: s1_def)
    note lp = cref_live_pull [OF n1 i1]
    have rm: "take i (cref_live s1) @ drop (Suc i) (cref_live s1)
                = take i (cref_live s) @ drop (Suc i) (cref_live s)"
      by (simp add: live1)
    have fl: "take i (cref_live s) @ drop (Suc i) (cref_live s)
                = filter (\<lambda>c. rslot_ptr c \<noteq> p) (cref_live s)"
      using remove_nth_eq_filter [OF d il] by (simp add: p_def l)
    have d': "distinct (map rslot_ptr (take i (cref_live s) @ drop (Suc i) (cref_live s)))"
      using d by (rule distinct_map_remove_nth)
    have nz': "list_all (\<lambda>c. rslot_n_ref c \<noteq> 0)
                 (take i (cref_live s) @ drop (Suc i) (cref_live s))"
      using nz set_remove_nth_subset [of i "cref_live s"] by (auto simp: list_all_iff)
    from inv d' nz' have "cref_inv (pull s1 i)"
      unfolding cref_inv_def lp rm by (auto simp: s1_def cref_inv_unfold)
    moreover have "count_in (cref_live (pull s1 i)) q = (if q = p then c else count_in (cref_live s) q)"
      unfolding lp rm fl count_in_filter by (simp add: c0)
    ultimately show ?thesis
      using False e lp(5) by (simp add: pi s1_def)
  qed
  then show "cref_inv (cref_pull_index s i)" and "cr_err (cref_pull_index s i) = CERR_NONE"
    and "count_in (cref_live (cref_pull_index s i)) q
           = (if q = rslot_ptr (cr_slots s ! i) then rslot_n_ref (cr_slots s ! i) - 1
              else count_in (cref_live s) q)"
    by (simp_all add: p_def c_def)
qed


lemma cref_pull_ptr_count:
  assumes inv: "cref_inv s" and e: "cr_err s = CERR_NONE"
  shows "cref_inv (cref_pull_ptr s p)"
    and "cr_err (cref_pull_ptr s p) = CERR_NONE"
    and "unat (fst (cref_find (cref_pull_ptr s p) q))
           = unat (fst (cref_find s q)) - (if q = p then 1 else 0)"
proof -
  have "cref_inv (cref_pull_ptr s p) \<and> cr_err (cref_pull_ptr s p) = CERR_NONE
        \<and> unat (fst (cref_find (cref_pull_ptr s p) q))
           = unat (fst (cref_find s q)) - (if q = p then 1 else 0)"
  proof (cases "fst (cref_find s p) = 0")
    case True
    then have "cref_pull_ptr s p = s"
      by (simp add: cref_pull_ptr_def case_prod_beta)
    with inv e True show ?thesis by auto
  next
    case False
    from cref_find_found [OF False] obtain i
      where fi: "cref_find s p = (rslot_n_ref (cref_live s ! i), Some i)"
        and i: "i < cr_n s" and l: "cref_live s ! i = cr_slots s ! i"
        and pi: "rslot_ptr (cref_live s ! i) = p"
      by blast
    from False fi have "0 < rslot_n_ref (cref_live s ! i)"
      by (simp add: word_gt_0)
    with fi have pp: "cref_pull_ptr s p = cref_pull_index s i"
      by (simp add: cref_pull_ptr_def)
    note x = cref_pull_index_count [OF inv e i, folded pp]
    from fi have c: "fst (cref_find s p) = rslot_n_ref (cr_slots s ! i)"
      by (simp add: l)
    from False c have "unat (rslot_n_ref (cr_slots s ! i) - 1) = unat (fst (cref_find s p)) - 1"
      by (simp add: unat_minus_one)
    with x(1,2) x(3) [of q] pi l show ?thesis
      unfolding cref_find_count_in [OF e] cref_find_count_in [OF x(2)]
      by auto
  qed
  then show "cref_inv (cref_pull_ptr s p)" and "cr_err (cref_pull_ptr s p) = CERR_NONE"
    and "unat (fst (cref_find (cref_pull_ptr s p) q))
           = unat (fst (cref_find s q)) - (if q = p then 1 else 0)"
    by simp_all
qed

lemma cref_push_failed:
  "cr_err s = CERR_NONE \<Longrightarrow> cr_err (cref_push mem s p) \<noteq> CERR_NONE \<Longrightarrow>
     cref_push mem s p = s\<lparr>cr_err := cr_err (cref_push mem s p)\<rparr>"
  by (auto simp: cref_push_def Let_def grow_cref_def split: prod.splits option.splits if_splits)

lemma cref_inv_push:
  assumes "cref_inv s"
  shows "cref_inv (cref_push mem s p)"
proof (cases "cr_err s = CERR_NONE")
  case False
  with assms show ?thesis by (simp add: cref_push_error)
next
  case True
  show ?thesis
  proof (cases "cr_err (cref_push mem s p) = CERR_NONE")
    case ok: True
    from cref_push_count(1) [OF assms True ok] show ?thesis .
  next
    case False
    from cref_push_failed [OF True False] obtain e'
      where "cref_push mem s p = s\<lparr>cr_err := e'\<rparr>" ..
    with assms True show ?thesis by (simp add: cref_inv_err)
  qed
qed

lemma cref_inv_call:
  assumes "cref_inv s"
  shows "cref_inv (fst (cref_call c s))"
proof (cases c)
  case C_clear
  with assms show ?thesis by (auto simp: cref_clear_def cref_inv_unfold)
next
  case (C_prealloc mem k)
  with assms show ?thesis by (simp add: cref_prealloc_def cref_inv_grow)
next
  case (C_pull_index i)
  with assms cref_pull_index_count(1) [of s "unat i"] show ?thesis
    by (cases "cr_err s = CERR_NONE \<and> unat i < cr_n s") (auto simp: cref_pull_index_def)
next
  case (C_pull_ptr p)
  with assms cref_pull_ptr_count(1) [of s p] show ?thesis
    by (cases "cr_err s = CERR_NONE") (auto simp: cref_pull_ptr_def cref_find_def)
next
  case (C_purge_index i)
  with assms show ?thesis
    by (auto simp: cref_purge_index_def cref_inv_pull)
next
  case (C_purge_ptr p)
  show ?thesis
  proof (cases "fst (cref_find s p) = 0")
    case True
    with assms C_purge_ptr show ?thesis
      by (simp add: cref_purge_ptr_def case_prod_beta)
  next
    case False
    from cref_find_found [OF False] obtain i
      where "cref_find s p = (rslot_n_ref (cref_live s ! i), Some i)" and "i < cr_n s"
      by blast
    with assms C_purge_ptr show ?thesis
      by (auto simp: cref_purge_ptr_def cref_purge_index_def cref_inv_pull)
  qed
next
  case (C_push mem p)
  with assms show ?thesis by (simp add: cref_inv_push)
next
  case C_repair
  with assms show ?thesis by (auto simp: cref_repair_def cref_inv_unfold)
next
  case (C_set_default_ptr p)
  with assms show ?thesis by (auto simp: cref_set_default_ptr_def cref_inv_unfold)
qed (use assms in simp_all)

lemma cref_reach_inv: "s \<in> cref_reach \<Longrightarrow> cref_inv s"
  by (induction rule: cref_reach.induct)
    (simp_all add: cref_inv_create cref_inv_clone cref_inv_call)


lemma cref_pushes_error: "cr_err s \<noteq> CERR_NONE \<Longrightarrow> cref_pushes ps s = s"
  by (induction ps) (auto simp: cref_push_error)

lemma cref_pushes_ok:
  assumes "cr_err (cref_pushes ps s) = CERR_NONE"
  shows "cr_err s = CERR_NONE"
proof (rule ccontr)
  assume "cr_err s \<noteq> CERR_NONE"
  then have "cref_pushes ps s = s" by (rule cref_pushes_error)
  with assms \<open>cr_err s \<noteq> CERR_NONE\<close> show False by simp
qed

lemma cref_pushes_count:
  assumes "cref_inv s" and "cr_err (cref_pushes ps s) = CERR_NONE"
  shows "cref_inv (cref_pushes ps s)
         \<and> unat (fst (cref_find (cref_pushes ps s) p))
           = unat (fst (cref_find s p)) + length (filter (\<lambda>a. snd a = p) ps)"
  using assms
proof (induction ps arbitrary: s)
  case Nil
  then show ?case by simp
next
  case (Cons a ps)
  obtain mem q where a: "a = (mem, q)" by (cases a)
  define s1 where "s1 = cref_push mem s q"
  from Cons.prems(2) have r: "cr_err (cref_pushes ps s1) = CERR_NONE"
    by (simp add: a s1_def)
  then have e1: "cr_err s1 = CERR_NONE" by (rule cref_pushes_ok)
  then have "cr_err (cref_pushes [(mem, q)] s) = CERR_NONE" by (simp add: s1_def)
  then have e: "cr_err s = CERR_NONE" by (rule cref_pushes_ok)
  note c = cref_push_count [OF Cons.prems(1) e e1 [unfolded s1_def], folded s1_def]
  from Cons.IH [OF c(1) r] c(2) [of p] show ?case
    by (auto simp: a s1_def)
qed

lemma cref_pulls_count:
  assumes "cref_inv s" and "cr_err s = CERR_NONE"
  shows "cref_inv (cref_pulls j p s) \<and> cr_err (cref_pulls j p s) = CERR_NONE
         \<and> unat (fst (cref_find (cref_pulls j p s) p)) = unat (fst (cref_find s p)) - j"
  using assms
proof (induction j arbitrary: s)
  case 0
  then show ?case by simp
next
  case (Suc j)
  note c = cref_pull_ptr_count [OF Suc.prems, of p]
  from Suc.IH [OF c(1,2)] c(3) [of p] show ?case
    by simp
qed


lemmas cref_eval_simps =
  cref_create_def cref_push_def cref_find_def cref_pull_ptr_def cref_pull_index_def pull_def
  grow_cref_def cref_calloc_def safe_mul_def sizeof_rslot_def SIZE_MAX_num realloc_cells_def
  memmove_cells_def wrap_def Let_def UINT_MAX_def

text \<open>
  C4, as the claim states it, fails on a registry that already holds the pointer: in the
  registry that holds 5 with count 1, one successful push of 5 (\<open>k = 1\<close>) makes
  \<open>cref_find\<close> report 2, not 1, and one \<open>cref_pull_ptr\<close> then leaves the count 1, so the
  entry is not removed.
\<close>

theorem C4_counterexample:
  "cr_err (cref_push True (cref_create True True) 5) = CERR_NONE
   \<and> fst (cref_find (cref_push True (cref_create True True) 5) 5) = 1
   \<and> cr_err (cref_push True (cref_push True (cref_create True True) 5) 5) = CERR_NONE
   \<and> fst (cref_find (cref_push True (cref_push True (cref_create True True) 5) 5) 5) = 2
   \<and> fst (cref_find (cref_pull_ptr
        (cref_push True (cref_push True (cref_create True True) 5) 5) 5) 5) = 1
   \<and> fst (cref_find (cref_pulls 1 5
        (cref_pushes [(True, 5)] (cref_push True (cref_create True True) 5))) 5) = 1"
  by (simp add: cref_eval_simps)

text \<open>
  C4, amended: take a reachable, error-free registry in which \<open>cref_find\<close> reports the
  count \<open>c\<close> for the pointer \<open>p\<close> (0 when \<open>p\<close> is absent), and a sequence of pushes,
  all successful (the error is still \<open>CERR_NONE\<close> afterwards), \<open>k\<close> of them of \<open>p\<close>
  and none interrupted by a pull. Then \<open>cref_find\<close> reports the count \<open>c + k\<close> for
  \<open>p\<close>; one \<open>cref_pull_ptr\<close> of \<open>p\<close> brings the reported count to \<open>c + k - 1\<close>;
  after \<open>k\<close> such pulls the count is \<open>c\<close> again; and when \<open>c = 0\<close>, after these
  \<open>k\<close> pulls \<open>cref_find\<close> reports 0 and no live entry holds \<open>p\<close>.
\<close>

theorem C4_reference_counts:
  "s \<in> cref_reach \<Longrightarrow> cr_err s = CERR_NONE \<Longrightarrow> c = unat (fst (cref_find s p)) \<Longrightarrow>
   cr_err (cref_pushes ps s) = CERR_NONE \<Longrightarrow> k = length (filter (\<lambda>a. snd a = p) ps) \<Longrightarrow>
     unat (fst (cref_find (cref_pushes ps s) p)) = c + k
     \<and> (1 \<le> k \<longrightarrow> unat (fst (cref_find (cref_pull_ptr (cref_pushes ps s) p) p)) = c + k - 1)
     \<and> unat (fst (cref_find (cref_pulls k p (cref_pushes ps s)) p)) = c
     \<and> (c = 0 \<longrightarrow> fst (cref_find (cref_pulls k p (cref_pushes ps s)) p) = 0
           \<and> p \<notin> rslot_ptr ` set (cref_live (cref_pulls k p (cref_pushes ps s))))"
proof -
  assume r: "s \<in> cref_reach" and e: "cr_err s = CERR_NONE"
    and a: "c = unat (fst (cref_find s p))"
    and ok: "cr_err (cref_pushes ps s) = CERR_NONE"
    and k: "k = length (filter (\<lambda>a. snd a = p) ps)"
  define t where "t = cref_pushes ps s"
  from r have "cref_inv s" by (rule cref_reach_inv)
  from cref_pushes_count [OF this ok, of p] a k
  have inv: "cref_inv t" and c: "unat (fst (cref_find t p)) = c + k"
    by (simp_all add: t_def)
  from ok have et: "cr_err t = CERR_NONE" by (simp add: t_def)
  from cref_pull_ptr_count(3) [OF inv et, of p p] c
  have one: "unat (fst (cref_find (cref_pull_ptr t p) p)) = c + k - 1"
    by simp
  from cref_pulls_count [OF inv et, of k p] c
  have i2: "cref_inv (cref_pulls k p t)" and e2: "cr_err (cref_pulls k p t) = CERR_NONE"
    and same: "unat (fst (cref_find (cref_pulls k p t) p)) = c"
    by simp_all
  have gone: "fst (cref_find (cref_pulls k p t) p) = 0
              \<and> p \<notin> rslot_ptr ` set (cref_live (cref_pulls k p t))" if "c = 0"
  proof -
    from same that have z: "fst (cref_find (cref_pulls k p t) p) = 0"
      by (simp add: unat_eq_0)
    from cref_find_absent(2) [OF z e2 i2] z show ?thesis by simp
  qed
  from c one same gone show ?thesis
    by (simp add: t_def)
qed

theorem C4_reference_counts_witness:
  "unat (fst (cref_find (cref_pushes [(True, 5), (True, 7), (True, 5)]
      (cref_create True True)) 5)) = 2
   \<and> unat (fst (cref_find (cref_pull_ptr (cref_pushes [(True, 5), (True, 7), (True, 5)]
      (cref_create True True)) 5) 5)) = 1
   \<and> fst (cref_find (cref_pulls 2 5 (cref_pushes [(True, 5), (True, 7), (True, 5)]
      (cref_create True True))) 5) = 0
   \<and> unat (fst (cref_find (cref_pushes [(True, 5), (True, 7), (True, 5)]
      (cref_push True (cref_create True True) 5)) 5)) = 3
   \<and> unat (fst (cref_find (cref_pull_ptr (cref_pushes [(True, 5), (True, 7), (True, 5)]
      (cref_push True (cref_create True True) 5)) 5) 5)) = 2
   \<and> unat (fst (cref_find (cref_pulls 2 5 (cref_pushes [(True, 5), (True, 7), (True, 5)]
      (cref_push True (cref_create True True) 5))) 5)) = 1"
proof -
  define s1 where "s1 = cref_push True (cref_create True True) 5"
  have r: "cref_create True True \<in> cref_reach"
    by (rule cref_reach.C_created)
  then have "fst (cref_call (C_push True 5) (cref_create True True)) \<in> cref_reach"
    by (rule cref_reach.C_called)
  then have r1: "s1 \<in> cref_reach"
    by (simp add: s1_def)
  have e: "cr_err (cref_create True True) = CERR_NONE"
    and a: "0 = unat (fst (cref_find (cref_create True True) 5))"
    and ok: "cr_err (cref_pushes [(True, 5), (True, 7), (True, 5)] (cref_create True True))
               = CERR_NONE"
    by (simp_all add: cref_eval_simps)
  have e1: "cr_err s1 = CERR_NONE"
    and a1: "1 = unat (fst (cref_find s1 5))"
    and ok1: "cr_err (cref_pushes [(True, 5), (True, 7), (True, 5)] s1) = CERR_NONE"
    unfolding s1_def by (simp_all add: cref_eval_simps)
  from C4_reference_counts [OF r e a ok refl]
  have A: "unat (fst (cref_find (cref_pushes [(True, 5), (True, 7), (True, 5)]
      (cref_create True True)) 5)) = 2
   \<and> unat (fst (cref_find (cref_pull_ptr (cref_pushes [(True, 5), (True, 7), (True, 5)]
      (cref_create True True)) 5) 5)) = 1
   \<and> fst (cref_find (cref_pulls 2 5 (cref_pushes [(True, 5), (True, 7), (True, 5)]
      (cref_create True True))) 5) = 0"
    by (simp add: numeral_2_eq_2)
  from C4_reference_counts [OF r1 e1 a1 ok1 refl]
  have B: "unat (fst (cref_find (cref_pushes [(True, 5), (True, 7), (True, 5)] s1) 5)) = 3
   \<and> unat (fst (cref_find (cref_pull_ptr (cref_pushes [(True, 5), (True, 7), (True, 5)] s1) 5)
        5)) = 2
   \<and> unat (fst (cref_find (cref_pulls 2 5 (cref_pushes [(True, 5), (True, 7), (True, 5)] s1))
        5)) = 1"
    by (simp add: numeral_2_eq_2)
  from A B show ?thesis
    unfolding s1_def by (intro conjI) simp_all
qed

section \<open>String arena: growth and the doubling loop\<close>

lemma cbook_inv_placeholder: "cbook_inv cbook_placeholder_instance"
  by (simp add: cbook_inv_def cbook_placeholder_instance_def)

lemma cbook_inv_err:
  "cbook_inv s \<Longrightarrow> cb_err s \<noteq> CERR_INVALID \<Longrightarrow> cbook_inv (s\<lparr>cb_err := e\<rparr>)"
  by (auto simp: cbook_inv_def)

text \<open>What \<open>grow\<close> leaves alone, and what it establishes.\<close>

lemma grow_cbook_frame:
  "cb_n_chars (fst (grow_cbook mem s kc kw kg)) = cb_n_chars s"
  "cb_n_words (fst (grow_cbook mem s kc kw kg)) = cb_n_words s"
  "cb_n_groups (fst (grow_cbook mem s kc kw kg)) = cb_n_groups s"
  "cb_new_group (fst (grow_cbook mem s kc kw kg)) = cb_new_group s"
  by (auto simp: grow_cbook_def Let_def split: prod.splits)

lemma grow_cbook_err:
  "snd (grow_cbook mem s kc kw kg) \<Longrightarrow> cb_err (fst (grow_cbook mem s kc kw kg)) = cb_err s"
  "\<not> snd (grow_cbook mem s kc kw kg) \<Longrightarrow>
     cb_err (fst (grow_cbook mem s kc kw kg)) \<noteq> CERR_NONE
     \<and> cb_err (fst (grow_cbook mem s kc kw kg)) \<noteq> CERR_INVALID"
  by (auto simp: grow_cbook_def Let_def split: prod.splits if_splits)

lemma grow_cbook_alloc:
  "snd (grow_cbook mem s kc kw kg) \<Longrightarrow>
     cb_n_alloc_chars (fst (grow_cbook mem s kc kw kg)) = max kc (cb_n_alloc_chars s)
     \<and> cb_n_alloc_words (fst (grow_cbook mem s kc kw kg)) = max kw (cb_n_alloc_words s)
     \<and> cb_n_alloc_groups (fst (grow_cbook mem s kc kw kg)) = max kg (cb_n_alloc_groups s)"
  by (auto simp: grow_cbook_def Let_def split: prod.splits if_splits)

lemma grow_cbook_cells:
  assumes "length (cb_chars s) = cb_n_alloc_chars s" and "length (cb_words s) = cb_n_alloc_words s"
    and "length (cb_groups s) = cb_n_alloc_groups s"
  shows "length (cb_chars (fst (grow_cbook mem s kc kw kg)))
           = cb_n_alloc_chars (fst (grow_cbook mem s kc kw kg))"
    and "length (cb_words (fst (grow_cbook mem s kc kw kg)))
           = cb_n_alloc_words (fst (grow_cbook mem s kc kw kg))"
    and "length (cb_groups (fst (grow_cbook mem s kc kw kg)))
           = cb_n_alloc_groups (fst (grow_cbook mem s kc kw kg))"
    and "cb_n_alloc_chars s \<le> cb_n_alloc_chars (fst (grow_cbook mem s kc kw kg))"
    and "cb_n_alloc_words s \<le> cb_n_alloc_words (fst (grow_cbook mem s kc kw kg))"
    and "cb_n_alloc_groups s \<le> cb_n_alloc_groups (fst (grow_cbook mem s kc kw kg))"
    and "n \<le> cb_n_alloc_chars s \<Longrightarrow>
           take n (cb_chars (fst (grow_cbook mem s kc kw kg))) = take n (cb_chars s)"
    and "n \<le> cb_n_alloc_words s \<Longrightarrow>
           take n (cb_words (fst (grow_cbook mem s kc kw kg))) = take n (cb_words s)"
    and "n \<le> cb_n_alloc_groups s \<Longrightarrow>
           take n (cb_groups (fst (grow_cbook mem s kc kw kg))) = take n (cb_groups s)"
  using assms
  by (auto simp: grow_cbook_def Let_def take_realloc_cells split: prod.splits if_splits)

lemma grow_cbook_bounds:
  assumes "kc \<le> SIZE_MAX" and "cb_n_alloc_chars s \<le> SIZE_MAX"
    and "cb_n_alloc_words s * sizeof_size_t \<le> SIZE_MAX"
    and "cb_n_alloc_groups s * sizeof_size_t \<le> SIZE_MAX"
  shows "cb_n_alloc_chars (fst (grow_cbook mem s kc kw kg)) \<le> SIZE_MAX"
    and "cb_n_alloc_words (fst (grow_cbook mem s kc kw kg)) * sizeof_size_t \<le> SIZE_MAX"
    and "cb_n_alloc_groups (fst (grow_cbook mem s kc kw kg)) * sizeof_size_t \<le> SIZE_MAX"
  using assms
  by (auto simp: grow_cbook_def Let_def safe_mul_def split: prod.splits if_splits)

lemma cbook_inv_grow:
  assumes "cbook_inv s" and "cb_err s \<noteq> CERR_INVALID" and "kc \<le> SIZE_MAX"
  shows "cbook_inv (fst (grow_cbook mem s kc kw kg))"
proof -
  define t where "t = fst (grow_cbook mem s kc kw kg)"
  from assms(1) have len: "length (cb_chars s) = cb_n_alloc_chars s"
    "length (cb_words s) = cb_n_alloc_words s" "length (cb_groups s) = cb_n_alloc_groups s"
    and n: "cb_n_chars s \<le> cb_n_alloc_chars s" "cb_n_words s \<le> cb_n_alloc_words s"
      "cb_n_groups s \<le> cb_n_alloc_groups s"
    and b: "cb_n_alloc_chars s \<le> SIZE_MAX" "cb_n_alloc_words s * sizeof_size_t \<le> SIZE_MAX"
      "cb_n_alloc_groups s * sizeof_size_t \<le> SIZE_MAX"
    by (simp_all add: cbook_inv_def)
  note c = grow_cbook_cells [OF len, where mem = mem and kc = kc and kw = kw and kg = kg,
      folded t_def]
  note f = grow_cbook_frame [where mem = mem and s = s and kc = kc and kw = kw and kg = kg,
      folded t_def]
  note bd = grow_cbook_bounds [OF assms(3) b, where mem = mem and kw = kw and kg = kg,
      folded t_def]
  have e: "cb_err t \<noteq> CERR_INVALID"
  proof (cases "snd (grow_cbook mem s kc kw kg)")
    case True
    from grow_cbook_err(1) [OF True] assms(2) show ?thesis by (simp add: t_def)
  next
    case False
    from grow_cbook_err(2) [OF False] show ?thesis by (simp add: t_def)
  qed
  from assms(1,2) have one: "1 \<le> cb_n_alloc_chars s \<and> 1 \<le> cb_n_alloc_words s
                          \<and> 1 \<le> cb_n_alloc_groups s"
    by (simp add: cbook_inv_def)
  from assms(1) c(8) [OF n(2)] c(9) [OF n(3)] n c(1-6) bd e one show "cbook_inv t"
    unfolding cbook_inv_def f by auto
qed


lemma size_sub_le:
  assumes "b \<le> a" and "a \<le> SIZE_MAX"
  shows "size_sub a b = a - b"
proof -
  define M where "M = SIZE_MAX + 1"
  have e: "a + M - b = (a - b) + M"
    using assms(1) by arith
  have lt: "a - b < M"
    using assms(2) unfolding M_def by arith
  have "((a - b) + M) mod M = (a - b) mod M"
    by (rule mod_add_self2)
  also have "\<dots> = a - b"
    using lt by (rule mod_less)
  finally have "(a + M - b) mod M = a - b"
    unfolding e .
  then show ?thesis
    unfolding size_sub_def wrap_def M_def .
qed

text \<open>
  The doubling loop, one round, when the capacity is a valid \<open>size_t\<close> and holds the
  bytes already written.
\<close>

lemma fit_chars_unfold:
  assumes "nc \<le> SIZE_MAX" and "n_chars \<le> nc"
  shows "fit_chars ns n_chars nc
           = (if nc < n_chars + ns
              then (if nc * 2 \<le> SIZE_MAX then fit_chars ns n_chars (nc * 2) else Some Overflows)
              else Some (Fits nc))"
proof -
  have sub: "size_sub nc n_chars = nc - n_chars"
    by (rule size_sub_le [OF assms(2) assms(1)])
  show ?thesis
  proof (cases "nc < n_chars + ns")
    case True
    with assms have "nc - n_chars < ns" by arith
    with True show ?thesis
      by (subst fit_chars.simps) (simp add: sub safe_mul_def)
  next
    case False
    with assms have "\<not> nc - n_chars < ns" by arith
    with False show ?thesis
      by (subst fit_chars.simps) (simp add: sub)
  qed
qed

text \<open>
  The loop ends whenever the capacity it starts from is at least 1: with a doubling of
  the capacity that holds the string, or with an overflow when no doubling within
  \<open>SIZE_MAX\<close> holds it.
\<close>

lemma fit_chars_total:
  assumes "1 \<le> nc" and "nc \<le> SIZE_MAX" and "n_chars \<le> nc"
  shows "\<exists>r. fit_chars ns n_chars nc = Some r"
  using assms
proof (induction "SIZE_MAX - nc" arbitrary: nc rule: less_induct)
  case less
  note u = fit_chars_unfold [OF less.prems(2,3), of ns]
  show ?case
  proof (cases "nc < n_chars + ns \<and> nc * 2 \<le> SIZE_MAX")
    case False
    with u show ?thesis by auto
  next
    case True
    then have le: "nc * 2 \<le> SIZE_MAX" by simp
    with less.prems(1) have "SIZE_MAX - nc * 2 < SIZE_MAX - nc" by linarith
    moreover from less.prems have "1 \<le> nc * 2" and "n_chars \<le> nc * 2" by simp_all
    ultimately have "\<exists>r. fit_chars ns n_chars (nc * 2) = Some r"
      using le by (intro less.hyps)
    with u True show ?thesis by simp
  qed
qed


lemma fit_chars_Fits:
  assumes "1 \<le> nc" and "nc \<le> SIZE_MAX" and "n_chars \<le> nc"
    and "fit_chars ns n_chars nc = Some (Fits m)"
  shows "nc \<le> m \<and> m \<le> SIZE_MAX \<and> n_chars + ns \<le> m \<and> (\<exists>j. m = nc * 2 ^ j)"
  using assms
proof (induction "SIZE_MAX - nc" arbitrary: nc rule: less_induct)
  case less
  note u = fit_chars_unfold [OF less.prems(2,3), of ns]
  show ?case
  proof (cases "nc < n_chars + ns")
    case False
    with u less.prems(4) have m: "m = nc" by simp
    have "nc = nc * 2 ^ 0" by simp
    then have "\<exists>j. nc = nc * 2 ^ j" by (rule exI)
    with m False less.prems(2) show ?thesis by simp
  next
    case True
    with u less.prems(4) have le: "nc * 2 \<le> SIZE_MAX"
      by (cases "nc * 2 \<le> SIZE_MAX") simp_all
    with u True less.prems(4) have f: "fit_chars ns n_chars (nc * 2) = Some (Fits m)"
      by simp
    from less.prems(1) le have d: "SIZE_MAX - nc * 2 < SIZE_MAX - nc" by linarith
    from less.prems have "1 \<le> nc * 2" and "n_chars \<le> nc * 2" by simp_all
    with d le f
    have "nc * 2 \<le> m \<and> m \<le> SIZE_MAX \<and> n_chars + ns \<le> m \<and> (\<exists>j. m = nc * 2 * 2 ^ j)"
      by (intro less.hyps)
    then obtain j where a: "nc * 2 \<le> m" and b: "m \<le> SIZE_MAX" and c: "n_chars + ns \<le> m"
      and "m = nc * 2 * 2 ^ j"
      by blast
    then have "m = nc * 2 ^ Suc j" by simp
    then have "\<exists>j. m = nc * 2 ^ j" by (rule exI)
    with a b c show ?thesis by simp
  qed
qed

lemma fit_chars_Overflows:
  assumes "1 \<le> nc" and "nc \<le> SIZE_MAX" and "n_chars \<le> nc"
    and "fit_chars ns n_chars nc = Some Overflows" and "nc * 2 ^ j \<le> SIZE_MAX"
  shows "nc * 2 ^ j < n_chars + ns"
  using assms
proof (induction "SIZE_MAX - nc" arbitrary: nc j rule: less_induct)
  case less
  note u = fit_chars_unfold [OF less.prems(2,3), of ns]
  from u less.prems(4) have small: "nc < n_chars + ns"
    by (cases "nc < n_chars + ns") simp_all
  show ?case
  proof (cases j)
    case 0
    with small show ?thesis by simp
  next
    case (Suc i)
    have e: "nc * 2 ^ j = nc * 2 * 2 ^ i"
      by (simp add: Suc)
    have "nc * 2 \<le> nc * 2 * 2 ^ i" by simp
    with less.prems(5) have le: "nc * 2 \<le> SIZE_MAX"
      unfolding e by linarith
    with u small less.prems(4) have f: "fit_chars ns n_chars (nc * 2) = Some Overflows"
      by simp
    from less.prems(1) le have d: "SIZE_MAX - nc * 2 < SIZE_MAX - nc" by linarith
    from less.prems have "1 \<le> nc * 2" and "n_chars \<le> nc * 2" by simp_all
    moreover from less.prems(5) have "nc * 2 * 2 ^ i \<le> SIZE_MAX"
      unfolding e .
    ultimately have "nc * 2 * 2 ^ i < n_chars + ns"
      using d le f by (intro less.hyps)
    then show ?thesis
      unfolding e .
  qed
qed

section \<open>String arena: what the code maintains\<close>

lemma sorted_take_iff:
  "n \<le> length xs \<Longrightarrow>
     sorted_wrt (<) (take n xs) \<longleftrightarrow> (\<forall>i j. i < j \<longrightarrow> j < n \<longrightarrow> xs ! i < (xs ! j :: nat))"
  by (auto simp: sorted_wrt_iff_nth_less)

lemma all_take_iff:
  "n \<le> length xs \<Longrightarrow> list_all P (take n xs) \<longleftrightarrow> (\<forall>i<n. P (xs ! i))"
  by (auto simp: list_all_length)

text \<open>The invariant of the arena, with the two ordered prefixes read cell by cell.\<close>

lemma cbook_inv_nth:
  "cbook_inv s \<longleftrightarrow>
     cb_n_chars s \<le> cb_n_alloc_chars s \<and> cb_n_words s \<le> cb_n_alloc_words s
     \<and> cb_n_groups s \<le> cb_n_alloc_groups s
     \<and> length (cb_chars s) = cb_n_alloc_chars s
     \<and> length (cb_words s) = cb_n_alloc_words s
     \<and> length (cb_groups s) = cb_n_alloc_groups s
     \<and> cb_n_alloc_chars s \<le> SIZE_MAX
     \<and> cb_n_alloc_words s * sizeof_size_t \<le> SIZE_MAX
     \<and> cb_n_alloc_groups s * sizeof_size_t \<le> SIZE_MAX
     \<and> (cb_err s = CERR_INVALID
          \<or> 1 \<le> cb_n_alloc_chars s \<and> 1 \<le> cb_n_alloc_words s \<and> 1 \<le> cb_n_alloc_groups s)
     \<and> (\<forall>i j. i < j \<longrightarrow> j < cb_n_words s \<longrightarrow> cb_words s ! i < cb_words s ! j)
     \<and> (\<forall>i<cb_n_words s. cb_words s ! i < cb_n_chars s)
     \<and> (\<forall>i j. i < j \<longrightarrow> j < cb_n_groups s \<longrightarrow> cb_groups s ! i < cb_groups s ! j)
     \<and> (\<forall>i<cb_n_groups s. cb_groups s ! i < cb_n_words s)"
  (is "?l \<longleftrightarrow> ?r")
proof
  assume l: ?l
  then have w: "cb_n_words s \<le> length (cb_words s)" and g: "cb_n_groups s \<le> length (cb_groups s)"
    by (simp_all add: cbook_inv_def)
  from l show ?r
    unfolding cbook_inv_def sorted_take_iff [OF w] sorted_take_iff [OF g]
      all_take_iff [OF w] all_take_iff [OF g] .
next
  assume r: ?r
  then have w: "cb_n_words s \<le> length (cb_words s)" and g: "cb_n_groups s \<le> length (cb_groups s)"
    by simp_all
  from r show ?l
    unfolding cbook_inv_def sorted_take_iff [OF w] sorted_take_iff [OF g]
      all_take_iff [OF w] all_take_iff [OF g] .
qed

lemma cbook_inv_clear: "cbook_inv s \<Longrightarrow> cbook_inv (cbook_clear s)"
  by (auto simp: cbook_inv_def cbook_clear_def)

lemma cbook_inv_zero: "cbook_inv s \<Longrightarrow> cbook_inv (cbook_zero s)"
  by (auto simp: cbook_inv_def cbook_zero_def)

lemma cbook_inv_prepare_new_group: "cbook_inv s \<Longrightarrow> cbook_inv (cbook_prepare_new_group s)"
  by (auto simp: cbook_inv_def cbook_prepare_new_group_def)

lemma cbook_inv_undo_new_group: "cbook_inv s \<Longrightarrow> cbook_inv (cbook_undo_new_group s)"
  by (auto simp: cbook_inv_def cbook_undo_new_group_def)

lemma cbook_inv_repair: "cbook_inv s \<Longrightarrow> cbook_inv (cbook_repair s)"
  by (auto simp: cbook_inv_def cbook_repair_def)

lemma cbook_inv_prealloc:
  "cbook_inv s \<Longrightarrow> kc \<le> SIZE_MAX \<Longrightarrow> cbook_inv (cbook_prealloc mem s kc kw kg)"
  by (simp add: cbook_prealloc_def cbook_inv_grow)

lemma cbook_inv_pop_group:
  assumes "cbook_inv s"
  shows "cbook_inv (cbook_pop_group s)"
proof (cases "cb_err s \<noteq> CERR_NONE \<or> cb_n_groups s = 0")
  case True
  with assms show ?thesis by (simp add: cbook_pop_group_def)
next
  case False
  define g where "g = cb_n_groups s - 1"
  define w where "w = cb_groups s ! g"
  define c where "c = cb_words s ! w"
  from False have gl: "g < cb_n_groups s" by (simp add: g_def)
  note i = assms [unfolded cbook_inv_nth]
  from i gl have wl: "w < cb_n_words s" by (simp add: w_def)
  with i have cl: "c < cb_n_chars s" by (simp add: c_def)
  define t where "t = s\<lparr>cb_n_groups := g, cb_n_chars := c, cb_n_words := w\<rparr>"
  have "cbook_inv t"
    unfolding cbook_inv_nth using i gl wl cl
    by (simp add: t_def) (auto simp: w_def c_def)
  moreover have "cbook_inv (t\<lparr>cb_new_group := True\<rparr>) = cbook_inv t"
    by (simp add: cbook_inv_def)
  moreover have "cbook_pop_group s = (if g = 0 then t\<lparr>cb_new_group := True\<rparr> else t)"
    using False by (simp add: cbook_pop_group_def Let_def g_def t_def w_def c_def)
  ultimately show ?thesis by simp
qed

lemma size_sub_zero_one: "size_sub 0 (Suc 0) = SIZE_MAX"
  by (simp add: size_sub_def wrap_def)

lemma cbook_inv_groups_bound:
  assumes "cbook_inv s"
  shows "cb_n_groups s < SIZE_MAX" and "length (cb_groups s) < SIZE_MAX"
    and "cb_n_alloc_words s * 2 \<le> SIZE_MAX" and "cb_n_alloc_groups s * 2 \<le> SIZE_MAX"
  using assms by (simp_all add: cbook_inv_def sizeof_size_t_def SIZE_MAX_num)

text \<open>
  \<open>cbook_pop_word\<close> on an error-free book with a word and no group has no defined
  result: the index \<open>n_groups - 1\<close> wraps to \<open>SIZE_MAX\<close>, beyond the array.
\<close>

lemma cbook_pop_word_no_group:
  assumes "cbook_inv s" and "cb_err s = CERR_NONE" and "cb_n_words s \<noteq> 0"
    and "cb_n_groups s = 0"
  shows "cbook_pop_word s = None"
  using assms cbook_inv_groups_bound(2) [OF assms(1)]
  by (simp add: cbook_pop_word_def size_sub_zero_one Let_def)

lemma cbook_pop_word_group:
  assumes "cbook_inv s" and "cb_err s = CERR_NONE" and "cb_n_words s \<noteq> 0"
    and "cb_n_groups s \<noteq> 0"
  shows "cbook_pop_word s =
           Some ((if cb_groups s ! (cb_n_groups s - 1) = cb_n_words s - 1
                  then s\<lparr>cb_n_groups := cb_n_groups s - 1,
                          cb_new_group := (cb_n_groups s = 1 \<or> cb_new_group s)\<rparr>
                  else s)
                 \<lparr>cb_n_words := cb_n_words s - 1,
                  cb_n_chars := cb_words s ! (cb_n_words s - 1)\<rparr>)"
proof -
  from assms(4) have "1 \<le> cb_n_groups s" by simp
  moreover from cbook_inv_groups_bound(1) [OF assms(1)] have "cb_n_groups s \<le> SIZE_MAX" by simp
  ultimately have "size_sub (cb_n_groups s) 1 = cb_n_groups s - 1"
    by (rule size_sub_le)
  then have sub: "size_sub (cb_n_groups s) (Suc 0) = cb_n_groups s - Suc 0"
    by simp
  from assms(1) have "cb_n_groups s \<le> length (cb_groups s)"
    by (simp add: cbook_inv_def)
  with assms(4) have "cb_n_groups s - 1 < length (cb_groups s)"
    by arith
  with assms(2,3,4) show ?thesis
    by (auto simp: cbook_pop_word_def cbook_pop_word_read_def sub Let_def)
qed

lemma cbook_inv_pop_word:
  assumes "cbook_inv s" and "cbook_pop_word s = Some t"
  shows "cbook_inv t"
proof (cases "cb_err s \<noteq> CERR_NONE \<or> cb_n_words s = 0")
  case True
  with assms show ?thesis by (auto simp: cbook_pop_word_def)
next
  case False
  then have e: "cb_err s = CERR_NONE" and w0: "cb_n_words s \<noteq> 0" by simp_all
  have g0: "cb_n_groups s \<noteq> 0"
  proof
    assume "cb_n_groups s = 0"
    from cbook_pop_word_no_group [OF assms(1) e w0 this] assms(2) show False by simp
  qed
  define last where "last = cb_n_groups s - 1"
  define w where "w = cb_n_words s - 1"
  note i = assms(1) [unfolded cbook_inv_nth]
  from g0 have ll: "last < cb_n_groups s" by (simp add: last_def)
  from w0 have wl: "w < cb_n_words s" by (simp add: w_def)
  from i ll have below: "\<forall>j<last. cb_groups s ! j < cb_groups s ! last" by simp
  have upto: "\<forall>j<cb_n_groups s. cb_groups s ! j \<le> cb_groups s ! last"
  proof (intro allI impI)
    fix j assume "j < cb_n_groups s"
    then have "j < last \<or> j = last" by (auto simp: last_def)
    with below show "cb_groups s ! j \<le> cb_groups s ! last" by auto
  qed
  from i ll have gl: "cb_groups s ! last < cb_n_words s" by simp
  from i wl have wordsb: "\<forall>j<w. cb_words s ! j < cb_words s ! w" by simp
  from i wl have cw: "cb_words s ! w < cb_n_chars s" by simp
  from cbook_pop_word_group [OF assms(1) e w0 g0] assms(2)
  have t: "t = (if cb_groups s ! last = w
                then s\<lparr>cb_n_groups := last, cb_new_group := (cb_n_groups s = 1 \<or> cb_new_group s)\<rparr>
                else s)
               \<lparr>cb_n_words := w, cb_n_chars := cb_words s ! w\<rparr>"
    by (simp add: last_def w_def)
  show ?thesis
  proof (cases "cb_groups s ! last = w")
    case True
    with t have t1: "t = s\<lparr>cb_n_groups := last,
                           cb_new_group := (cb_n_groups s = 1 \<or> cb_new_group s),
                           cb_n_words := w, cb_n_chars := cb_words s ! w\<rparr>"
      by simp
    from i ll wl below True wordsb cw show ?thesis
      unfolding cbook_inv_nth by (auto simp: t1)
  next
    case False
    with t have t2: "t = s\<lparr>cb_n_words := w, cb_n_chars := cb_words s ! w\<rparr>"
      by simp
    have "\<forall>j<cb_n_groups s. cb_groups s ! j < w"
    proof (intro allI impI)
      fix j assume "j < cb_n_groups s"
      with upto have "cb_groups s ! j \<le> cb_groups s ! last" by simp
      moreover from gl False have "cb_groups s ! last < w" by (simp add: w_def)
      ultimately show "cb_groups s ! j < w" by simp
    qed
    with i ll wl wordsb cw show ?thesis
      unfolding cbook_inv_nth by (auto simp: t2)
  qed
qed

text \<open>The first allocation of a book, from the zeroed struct that \<open>calloc\<close> returns.\<close>

lemma grow_cbook_calloc:
  assumes "snd (grow_cbook mem cbook_calloc kc kw kg)"
  shows "fst (grow_cbook mem cbook_calloc kc kw kg)
           = cbook_calloc\<lparr>cb_n_alloc_chars := kc, cb_chars := replicate kc NUL,
                          cb_n_alloc_words := kw, cb_words := replicate kw 0,
                          cb_n_alloc_groups := kg, cb_groups := replicate kg 0\<rparr>"
    and "kw * sizeof_size_t \<le> SIZE_MAX" and "kg * sizeof_size_t \<le> SIZE_MAX"
  using assms
  by (auto simp: grow_cbook_def cbook_calloc_def realloc_cells_def safe_mul_def Let_def
      split: prod.splits if_splits)

lemma cbook_inv_create: "cbook_inv (cbook_create mem_obj mem)"
proof (cases "mem_obj \<and> snd (grow_cbook mem cbook_calloc 1 1 1)")
  case False
  then show ?thesis
    by (auto simp: cbook_create_def case_prod_beta cbook_inv_placeholder)
next
  case True
  then have ok: "snd (grow_cbook mem cbook_calloc (Suc 0) (Suc 0) (Suc 0))" by simp
  from True show ?thesis
    by (simp add: cbook_create_def case_prod_beta grow_cbook_calloc(1) [OF ok])
      (simp add: cbook_inv_def cbook_calloc_def sizeof_size_t_def SIZE_MAX_num)
qed

lemma cbook_inv_clone:
  assumes "cbook_inv s"
  shows "cbook_inv (cbook_clone mem_obj mem s)"
proof (cases "cb_err s = CERR_NONE \<and> mem_obj
              \<and> snd (grow_cbook mem cbook_calloc (cb_n_alloc_chars s) (cb_n_alloc_words s)
                       (cb_n_alloc_groups s))")
  case False
  then show ?thesis
    by (auto simp: cbook_clone_def case_prod_beta cbook_inv_placeholder)
next
  case True
  then have ok: "snd (grow_cbook mem cbook_calloc (cb_n_alloc_chars s) (cb_n_alloc_words s)
                       (cb_n_alloc_groups s))" by simp
  from True assms show ?thesis
    by (simp add: cbook_clone_def case_prod_beta grow_cbook_calloc(1) [OF ok])
      (simp add: cbook_inv_def cbook_calloc_def)
qed

text \<open>
  \<open>cbook_write\<close> on an error-free book that satisfies the invariant: the doubling loop
  ends, the two products \<open>nw\<close> and \<open>ng\<close> do not wrap, and the call ends in one of
  three ways.
\<close>

lemma cbook_write_cases:
  assumes inv: "cbook_inv s" and e: "cb_err s = CERR_NONE"
  obtains
    (overflow) "fit_chars (length str + 1) (cb_n_chars s) (cb_n_alloc_chars s) = Some Overflows"
      and "cbook_write mem s str = Some (s\<lparr>cb_err := CERR_OVERFLOW\<rparr>)"
  | (failed) nc b1 where
      "fit_chars (length str + 1) (cb_n_chars s) (cb_n_alloc_chars s) = Some (Fits nc)"
      and "grow_cbook mem s nc
             (cb_n_alloc_words s * (if cb_n_alloc_words s \<le> cb_n_words s then 2 else 1))
             (cb_n_alloc_groups s * (if cb_n_alloc_groups s \<le> cb_n_groups s then 2 else 1))
           = (b1, False)"
      and "cbook_write mem s str = Some b1"
  | (written) nc b1 where
      "fit_chars (length str + 1) (cb_n_chars s) (cb_n_alloc_chars s) = Some (Fits nc)"
      and "grow_cbook mem s nc
             (cb_n_alloc_words s * (if cb_n_alloc_words s \<le> cb_n_words s then 2 else 1))
             (cb_n_alloc_groups s * (if cb_n_alloc_groups s \<le> cb_n_groups s then 2 else 1))
           = (b1, True)"
      and "cbook_write mem s str =
             Some ((if cb_new_group b1
                    then b1\<lparr>cb_groups := (cb_groups b1) [cb_n_groups b1 := cb_n_words b1],
                            cb_n_groups := cb_n_groups b1 + 1, cb_new_group := False\<rparr>
                    else b1)
                   \<lparr>cb_chars := take (cb_n_chars b1) (cb_chars b1) @ str @ [NUL]
                                 @ drop (cb_n_chars b1 + (length str + 1)) (cb_chars b1),
                    cb_words := (cb_words b1) [cb_n_words b1 := cb_n_chars b1],
                    cb_n_words := cb_n_words b1 + 1,
                    cb_n_chars := cb_n_chars b1 + (length str + 1)\<rparr>)"
proof -
  define nw where
    "nw = cb_n_alloc_words s * (if cb_n_alloc_words s \<le> cb_n_words s then 2 else 1)"
  define ng where
    "ng = cb_n_alloc_groups s * (if cb_n_alloc_groups s \<le> cb_n_groups s then 2 else 1)"
  from cbook_inv_groups_bound(3) [OF inv] have "nw \<le> SIZE_MAX"
    by (simp add: nw_def)
  then have wnw: "wrap nw = nw" by (rule wrap_small)
  from cbook_inv_groups_bound(4) [OF inv] have "ng \<le> SIZE_MAX"
    by (simp add: ng_def)
  then have wng: "wrap ng = ng" by (rule wrap_small)
  from inv e have "1 \<le> cb_n_alloc_chars s" and "cb_n_alloc_chars s \<le> SIZE_MAX"
    and "cb_n_chars s \<le> cb_n_alloc_chars s"
    by (simp_all add: cbook_inv_def)
  from fit_chars_total [OF this] obtain r
    where r: "fit_chars (length str + 1) (cb_n_chars s) (cb_n_alloc_chars s) = Some r"
    by blast
  have W: "cbook_write mem s str =
             (case r of
                Overflows \<Rightarrow> Some (s\<lparr>cb_err := CERR_OVERFLOW\<rparr>)
              | Fits nc \<Rightarrow>
                 (case grow_cbook mem s nc nw ng of
                    (book1, ok) \<Rightarrow>
                      if \<not> ok then Some book1
                      else let book2 =
                             (if cb_new_group book1
                              then book1\<lparr>cb_groups := (cb_groups book1)
                                            [cb_n_groups book1 := cb_n_words book1],
                                          cb_n_groups := cb_n_groups book1 + 1,
                                          cb_new_group := False\<rparr>
                              else book1)
                        in Some (book2\<lparr>cb_chars :=
                                          take (cb_n_chars book2) (cb_chars book2)
                                          @ str @ [NUL]
                                          @ drop (cb_n_chars book2 + (length str + 1))
                                              (cb_chars book2),
                                        cb_words := (cb_words book2)
                                          [cb_n_words book2 := cb_n_chars book2],
                                        cb_n_words := cb_n_words book2 + 1,
                                        cb_n_chars := cb_n_chars book2 + (length str + 1)\<rparr>)))"
    unfolding cbook_write_def Let_def wnw [unfolded nw_def] wng [unfolded ng_def] nw_def ng_def
    using e r by simp
  show thesis
  proof (cases r)
    case Overflows
    with W r show thesis by (intro overflow) simp_all
  next
    case (Fits nc)
    obtain b1 ok where g: "grow_cbook mem s nc nw ng = (b1, ok)"
      by (cases "grow_cbook mem s nc nw ng")
    show thesis
    proof (cases ok)
      case False
      with W r Fits g show thesis
        by (intro failed [of nc b1]) (simp_all add: nw_def ng_def)
    next
      case True
      with W r Fits g show thesis
        by (intro written [of nc b1]) (auto simp: nw_def ng_def Let_def)
    qed
  qed
qed

text \<open>What a successful \<open>cbook_write\<close> does to the counts, the offsets and the flag.\<close>

lemma cbook_write_ok:
  assumes inv: "cbook_inv s" and e: "cb_err s = CERR_NONE"
    and w: "cbook_write mem s str = Some t" and ok: "cb_err t = CERR_NONE"
  shows "cb_n_chars t = cb_n_chars s + length str + 1
         \<and> cb_n_words t = cb_n_words s + 1
         \<and> cb_n_groups t = (if cb_new_group s then cb_n_groups s + 1 else cb_n_groups s)
         \<and> \<not> cb_new_group t
         \<and> take (cb_n_words s) (cb_words t) = take (cb_n_words s) (cb_words s)
         \<and> cb_words t ! cb_n_words s = cb_n_chars s
         \<and> take (cb_n_groups s) (cb_groups t) = take (cb_n_groups s) (cb_groups s)
         \<and> (cb_new_group s \<longrightarrow> cb_groups t ! cb_n_groups s = cb_n_words s)
         \<and> cbook_inv t"
proof -
  define nw where
    "nw = cb_n_alloc_words s * (if cb_n_alloc_words s \<le> cb_n_words s then 2 else 1)"
  define ng where
    "ng = cb_n_alloc_groups s * (if cb_n_alloc_groups s \<le> cb_n_groups s then 2 else 1)"
  obtain nc b1 where
    fits: "fit_chars (length str + 1) (cb_n_chars s) (cb_n_alloc_chars s) = Some (Fits nc)"
    and g: "grow_cbook mem s nc nw ng = (b1, True)"
    and t0: "t = (if cb_new_group b1
                  then b1\<lparr>cb_groups := (cb_groups b1) [cb_n_groups b1 := cb_n_words b1],
                          cb_n_groups := cb_n_groups b1 + 1, cb_new_group := False\<rparr>
                  else b1)
                 \<lparr>cb_chars := take (cb_n_chars b1) (cb_chars b1) @ str @ [NUL]
                               @ drop (cb_n_chars b1 + (length str + 1)) (cb_chars b1),
                  cb_words := (cb_words b1) [cb_n_words b1 := cb_n_chars b1],
                  cb_n_words := cb_n_words b1 + 1,
                  cb_n_chars := cb_n_chars b1 + (length str + 1)\<rparr>"
  proof -
    from inv e show ?thesis
    proof (cases rule: cbook_write_cases [where str = str and mem = mem])
      case overflow
      with w ok show ?thesis by auto
    next
      case (failed nc b1)
      from failed(2) grow_cbook_err(2) [of mem s nc nw ng] have "cb_err b1 \<noteq> CERR_NONE"
        by (simp add: nw_def ng_def)
      with failed(3) w ok show ?thesis by simp
    next
      case (written nc b1)
      with w that [of nc b1] show ?thesis by (simp add: nw_def ng_def)
    qed
  qed
  from g have b1: "b1 = fst (grow_cbook mem s nc nw ng)" and sg: "snd (grow_cbook mem s nc nw ng)"
    by simp_all
  from inv e have one: "1 \<le> cb_n_alloc_chars s" "1 \<le> cb_n_alloc_words s"
    "1 \<le> cb_n_alloc_groups s"
    and bound: "cb_n_alloc_chars s \<le> SIZE_MAX"
    and le: "cb_n_chars s \<le> cb_n_alloc_chars s" "cb_n_words s \<le> cb_n_alloc_words s"
      "cb_n_groups s \<le> cb_n_alloc_groups s"
    and len: "length (cb_chars s) = cb_n_alloc_chars s"
      "length (cb_words s) = cb_n_alloc_words s" "length (cb_groups s) = cb_n_alloc_groups s"
    by (simp_all add: cbook_inv_def)
  from fit_chars_Fits [OF one(1) bound le(1) fits]
  have nc: "nc \<le> SIZE_MAX" "cb_n_chars s + (length str + 1) \<le> nc" by simp_all
  from e have "cb_err s \<noteq> CERR_INVALID" by simp
  from cbook_inv_grow [OF inv this nc(1), of mem nw ng] have ib1: "cbook_inv b1"
    by (simp add: b1)
  note f = grow_cbook_frame [of mem s nc nw ng, folded b1]
  note c = grow_cbook_cells(7-9) [OF len, where mem = mem and kc = nc and kw = nw and kg = ng,
      folded b1]
  from grow_cbook_alloc [OF sg]
  have a: "cb_n_alloc_chars b1 = max nc (cb_n_alloc_chars s)"
    "cb_n_alloc_words b1 = max nw (cb_n_alloc_words s)"
    "cb_n_alloc_groups b1 = max ng (cb_n_alloc_groups s)"
    by (simp_all add: b1)
  from grow_cbook_err(1) [OF sg] e have e1: "cb_err b1 = CERR_NONE"
    by (simp add: b1)
  from nc(2) have cap_c: "cb_n_chars s + (length str + 1) \<le> cb_n_alloc_chars b1"
    by (simp add: a)
  from one(2) le(2) have cap_w: "cb_n_words s < cb_n_alloc_words b1"
    by (simp add: a nw_def)
  from one(3) le(3) have cap_g: "cb_n_groups s < cb_n_alloc_groups b1"
    by (simp add: a ng_def)
  note i = ib1 [unfolded cbook_inv_nth f]
  from i have l1: "length (cb_chars b1) = cb_n_alloc_chars b1"
    "length (cb_words b1) = cb_n_alloc_words b1" "length (cb_groups b1) = cb_n_alloc_groups b1"
    by simp_all
  have tw: "take (cb_n_words s) (cb_words t) = take (cb_n_words s) (cb_words s)"
    using c(2) [OF le(2)] by (simp add: t0 f)
  have tg: "take (cb_n_groups s) (cb_groups t) = take (cb_n_groups s) (cb_groups s)"
    using c(3) [OF le(3)] by (simp add: t0 f)
  have nth_w: "cb_words t ! cb_n_words s = cb_n_chars s"
    using cap_w l1 by (simp add: t0 f)
  have nth_g: "cb_new_group s \<longrightarrow> cb_groups t ! cb_n_groups s = cb_n_words s"
    using cap_g l1 by (simp add: t0 f)
  have counts: "cb_n_chars t = cb_n_chars s + length str + 1"
    "cb_n_words t = cb_n_words s + 1"
    "cb_n_groups t = (if cb_new_group s then cb_n_groups s + 1 else cb_n_groups s)"
    "\<not> cb_new_group t"
    by (simp_all add: t0 f)
  have "cbook_inv t"
  proof (cases "cb_new_group s")
    case True
    then have t1: "t = b1\<lparr>cb_groups := (cb_groups b1) [cb_n_groups s := cb_n_words s],
                          cb_n_groups := cb_n_groups s + 1, cb_new_group := False,
                          cb_chars := take (cb_n_chars s) (cb_chars b1) @ str @ [NUL]
                               @ drop (cb_n_chars s + (length str + 1)) (cb_chars b1),
                          cb_words := (cb_words b1) [cb_n_words s := cb_n_chars s],
                          cb_n_words := cb_n_words s + 1,
                          cb_n_chars := cb_n_chars s + (length str + 1)\<rparr>"
      by (simp add: t0 f)
    from i cap_c cap_w cap_g e1 show ?thesis
      unfolding cbook_inv_nth by (auto simp: t1 f nth_list_update less_Suc_eq)
  next
    case False
    then have t2: "t = b1\<lparr>cb_chars := take (cb_n_chars s) (cb_chars b1) @ str @ [NUL]
                               @ drop (cb_n_chars s + (length str + 1)) (cb_chars b1),
                          cb_words := (cb_words b1) [cb_n_words s := cb_n_chars s],
                          cb_n_words := cb_n_words s + 1,
                          cb_n_chars := cb_n_chars s + (length str + 1)\<rparr>"
      by (simp add: t0 f)
    from i cap_c cap_w cap_g e1 show ?thesis
      unfolding cbook_inv_nth by (auto simp: t2 f nth_list_update less_Suc_eq)
  qed
  with counts tw tg nth_w nth_g show ?thesis by simp
qed

lemma cbook_write_total:
  assumes "cbook_inv s"
  shows "\<exists>t. cbook_write mem s str = Some t"
proof (cases "cb_err s = CERR_NONE")
  case False
  then show ?thesis by (simp add: cbook_write_def)
next
  case True
  from assms True show ?thesis
    by (cases rule: cbook_write_cases [where str = str and mem = mem]) simp_all
qed

lemma cbook_inv_write:
  assumes inv: "cbook_inv s" and w: "cbook_write mem s str = Some t"
  shows "cbook_inv t"
proof (cases "cb_err s = CERR_NONE")
  case False
  with w inv show ?thesis by (simp add: cbook_write_def)
next
  case True
  then have ni: "cb_err s \<noteq> CERR_INVALID" by simp
  from inv True show ?thesis
  proof (cases rule: cbook_write_cases [where str = str and mem = mem])
    case overflow
    with w cbook_inv_err [OF inv ni, of CERR_OVERFLOW] show ?thesis by simp
  next
    case (failed nc b1)
    from inv True have "1 \<le> cb_n_alloc_chars s" and "cb_n_alloc_chars s \<le> SIZE_MAX"
      and "cb_n_chars s \<le> cb_n_alloc_chars s"
      by (simp_all add: cbook_inv_def)
    from fit_chars_Fits [OF this failed(1)] have "nc \<le> SIZE_MAX" by simp
    from cbook_inv_grow [OF inv ni this] failed(2) have "cbook_inv b1"
      by (metis fst_conv)
    with failed(3) w show ?thesis by simp
  next
    case (written nc b1)
    from written(2) True have "cb_err b1 = CERR_NONE"
      by (metis grow_cbook_err(1) fst_conv snd_conv)
    with written(3) w have "cb_err t = CERR_NONE" by auto
    from cbook_write_ok [OF inv True w this] show ?thesis by simp
  qed
qed

lemma cbook_inv_call:
  assumes "cbook_inv s" and "cbook_call c s = Some (t, r)"
  shows "cbook_inv t"
proof (cases c)
  case B_clear
  with assms show ?thesis by (auto simp: cbook_inv_clear)
next
  case B_pop_group
  with assms show ?thesis by (auto simp: cbook_inv_pop_group)
next
  case B_pop_word
  with assms show ?thesis by (auto simp: cbook_inv_pop_word)
next
  case (B_prealloc mem kc kw kg)
  have "unat kc \<le> SIZE_MAX"
    using unsigned_less [of kc, where 'a = nat] by (simp add: SIZE_MAX_num)
  from cbook_inv_prealloc [OF assms(1) this, of mem "unat kw" "unat kg"] B_prealloc assms(2)
  show ?thesis by simp
next
  case B_prepare_new_group
  with assms show ?thesis by (auto simp: cbook_inv_prepare_new_group)
next
  case B_repair
  with assms show ?thesis by (auto simp: cbook_inv_repair)
next
  case B_undo_new_group
  with assms show ?thesis by (auto simp: cbook_inv_undo_new_group)
next
  case (B_write mem str)
  with assms show ?thesis by (auto simp: cbook_inv_write)
next
  case B_zero
  with assms show ?thesis by (auto simp: cbook_inv_zero)
qed (use assms in auto)

text \<open>
  The invariant holds of a new book, and along every sequence of calls that have a
  defined result.
\<close>

lemma cbook_calls_inv:
  "cbook_inv s \<Longrightarrow> cbook_calls cs s = Some (t, rs) \<Longrightarrow> cbook_inv t"
proof (induction cs arbitrary: s rs)
  case Nil
  then show ?case by simp
next
  case (Cons c cs)
  from Cons.prems(2) obtain s1 r rs1 where c: "cbook_call c s = Some (s1, r)"
    and cs: "cbook_calls cs s1 = Some (t, rs1)"
    by (auto split: option.splits)
  from Cons.prems(1) c have "cbook_inv s1" by (rule cbook_inv_call)
  from Cons.IH [OF this cs] show ?case .
qed

section \<open>Lengths within capacities\<close>

lemmas cbook_eval_simps =
  cbook_create_def cbook_write_def fit_chars.simps size_sub_def wrap_def
  grow_cbook_def cbook_calloc_def safe_mul_def sizeof_size_t_def SIZE_MAX_num realloc_cells_def
  Let_def

text \<open>
  In every reachable state of the slot table and of the registry, and in every state of
  the arena that follows \<open>cbook_create\<close> by a sequence of calls with a defined result,
  the logical length is at most the allocated capacity.
\<close>

lemma cinputs_reach_length: "s \<in> cinputs_reach \<Longrightarrow> ci_n s \<le> ci_n_alloc s"
  using cinputs_reach_inv [of s] by (simp add: cinputs_inv_def)

lemma cref_reach_length: "s \<in> cref_reach \<Longrightarrow> cr_n s \<le> cr_n_alloc s"
  using cref_reach_inv [of s] by (simp add: cref_inv_def)

lemma cbook_calls_length:
  assumes "cbook_calls cs (cbook_create mem_obj mem) = Some (t, rs)"
  shows "cb_n_chars t \<le> cb_n_alloc_chars t \<and> cb_n_words t \<le> cb_n_alloc_words t
         \<and> cb_n_groups t \<le> cb_n_alloc_groups t"
proof -
  have "cbook_inv (cbook_create mem_obj mem)" by (rule cbook_inv_create)
  from cbook_calls_inv [OF this assms] show ?thesis by (simp add: cbook_inv_def)
qed

lemma cbook_grouped_create: "cbook_grouped (cbook_create mem_obj mem)"
  by (auto simp: cbook_grouped_def cbook_create_def cbook_placeholder_instance_def
      case_prod_beta)

lemma cbook_grouped_grow:
  assumes inv: "cbook_inv s" and g: "cbook_grouped s" and e: "cb_err s = CERR_NONE"
  shows "cbook_grouped (fst (grow_cbook mem s kc kw kg))"
proof -
  from inv have len: "length (cb_chars s) = cb_n_alloc_chars s"
    "length (cb_words s) = cb_n_alloc_words s" "length (cb_groups s) = cb_n_alloc_groups s"
    and n: "cb_n_groups s \<le> cb_n_alloc_groups s"
    by (simp_all add: cbook_inv_def)
  note t = grow_cbook_cells(9) [OF len n, of mem kc kw kg]
  have "cb_groups (fst (grow_cbook mem s kc kw kg)) ! 0 = cb_groups s ! 0"
    if "cb_n_groups s \<noteq> 0"
  proof -
    from that have "0 < cb_n_groups s" by simp
    from nth_take [OF this, of "cb_groups (fst (grow_cbook mem s kc kw kg))"]
      nth_take [OF this, of "cb_groups s"] t show ?thesis by simp
  qed
  with g e show ?thesis
    by (auto simp: cbook_grouped_def grow_cbook_frame)
qed

lemma cbook_grouped_write:
  assumes inv: "cbook_inv s" and g: "cbook_grouped s"
    and w: "cbook_write mem s str = Some t"
  shows "cbook_grouped t"
proof (cases "cb_err s = CERR_NONE")
  case False
  with w g show ?thesis by (simp add: cbook_write_def)
next
  case True
  from inv True show ?thesis
  proof (cases rule: cbook_write_cases [where str = str and mem = mem])
    case overflow
    with w g True show ?thesis by (auto simp: cbook_grouped_def)
  next
    case (failed nc b1)
    from cbook_grouped_grow [OF inv g True, of mem nc] failed(2) have "cbook_grouped b1"
      by (metis fst_conv)
    with failed(3) w show ?thesis by simp
  next
    case (written nc b1)
    from written(2) True have "cb_err b1 = CERR_NONE"
      by (metis grow_cbook_err(1) fst_conv snd_conv)
    with written(3) w have ok: "cb_err t = CERR_NONE" by auto
    note r = cbook_write_ok [OF inv True w ok]
    from r have ng: "cb_n_groups t = (if cb_new_group s then cb_n_groups s + 1 else cb_n_groups s)"
      and tg: "take (cb_n_groups s) (cb_groups t) = take (cb_n_groups s) (cb_groups s)"
      and lg: "cb_new_group s \<longrightarrow> cb_groups t ! cb_n_groups s = cb_n_words s"
      by simp_all
    have keep: "cb_groups t ! 0 = cb_groups s ! 0" if "cb_n_groups s \<noteq> 0"
    proof -
      from that have "0 < cb_n_groups s" by simp
      from nth_take [OF this, of "cb_groups t"] nth_take [OF this, of "cb_groups s"] tg
      show ?thesis by simp
    qed
    show ?thesis
    proof (cases "cb_n_groups s = 0")
      case z: True
      with g True have "cb_new_group s" and "cb_n_words s = 0"
        by (simp_all add: cbook_grouped_def)
      with ng lg z show ?thesis by (simp add: cbook_grouped_def)
    next
      case nz: False
      with g True have "cb_groups s ! 0 = 0" by (simp add: cbook_grouped_def)
      with keep [OF nz] ng nz show ?thesis by (simp add: cbook_grouped_def)
    qed
  qed
qed

lemma cbook_grouped_pop_word:
  assumes inv: "cbook_inv s" and g: "cbook_grouped s"
  shows "\<exists>t. cbook_pop_word s = Some t \<and> cbook_grouped t"
proof (cases "cb_err s \<noteq> CERR_NONE \<or> cb_n_words s = 0")
  case True
  with g show ?thesis by (auto simp: cbook_pop_word_def)
next
  case False
  then have e: "cb_err s = CERR_NONE" and w0: "cb_n_words s \<noteq> 0" by simp_all
  with g have g0: "cb_n_groups s \<noteq> 0" and first: "cb_groups s ! 0 = 0"
    by (auto simp: cbook_grouped_def split: if_splits)
  note p = cbook_pop_word_group [OF inv e w0 g0]
  show ?thesis
  proof (cases "cb_groups s ! (cb_n_groups s - 1) = cb_n_words s - 1")
    case neq: False
    with p e g0 first show ?thesis by (simp add: cbook_grouped_def)
  next
    case eq: True
    show ?thesis
    proof (cases "cb_n_groups s = 1")
      case True
      with eq first have "cb_n_words s - 1 = 0" by simp
      with p eq True e show ?thesis by (simp add: cbook_grouped_def)
    next
      case False
      with g0 have "cb_n_groups s - 1 \<noteq> 0" by simp
      with p eq e first show ?thesis by (simp add: cbook_grouped_def)
    qed
  qed
qed

text \<open>
  Every public call but \<open>cbook_zero\<close> has a defined result on such a book and keeps the
  condition; so, from \<open>cbook_create\<close>, does every sequence of calls without
  \<open>cbook_zero\<close>, and the lengths stay within the capacities.
\<close>

lemma cbook_grouped_call:
  assumes inv: "cbook_inv s" and g: "cbook_grouped s" and c: "c \<noteq> B_zero"
  shows "\<exists>t r. cbook_call c s = Some (t, r) \<and> cbook_grouped t"
proof (cases c)
  case B_clear
  with g show ?thesis by (auto simp: cbook_clear_def cbook_grouped_def)
next
  case B_pop_group
  show ?thesis
  proof (cases "cb_err s \<noteq> CERR_NONE \<or> cb_n_groups s = 0")
    case True
    with g B_pop_group show ?thesis by (auto simp: cbook_pop_group_def)
  next
    case False
    with g have "cb_groups s ! 0 = 0" by (auto simp: cbook_grouped_def)
    with False B_pop_group show ?thesis
      by (auto simp: cbook_pop_group_def cbook_grouped_def Let_def)
  qed
next
  case B_pop_word
  with cbook_grouped_pop_word [OF inv g] show ?thesis by auto
next
  case (B_prealloc mem kc kw kg)
  show ?thesis
  proof (cases "cb_err s = CERR_NONE")
    case True
    with cbook_grouped_grow [OF inv g True, of mem "unat kc" "unat kw" "unat kg"] B_prealloc
    show ?thesis by (simp add: cbook_prealloc_def)
  next
    case False
    with g B_prealloc show ?thesis by (simp add: cbook_prealloc_def)
  qed
next
  case B_prepare_new_group
  with g show ?thesis
    by (auto simp: cbook_prepare_new_group_def cbook_grouped_def split: if_splits)
next
  case B_repair
  with g show ?thesis
    by (auto simp: cbook_repair_def cbook_grouped_def split: if_splits)
next
  case B_undo_new_group
  with g show ?thesis
    by (cases "cb_n_groups s = 0") (auto simp: cbook_undo_new_group_def cbook_grouped_def)
next
  case (B_write mem str)
  from cbook_write_total [OF inv, of mem str] obtain t
    where w: "cbook_write mem s str = Some t" by blast
  from cbook_grouped_write [OF inv g w] w B_write show ?thesis by simp
next
  case B_zero
  with c show ?thesis by simp
qed (use g in auto)

lemma cbook_calls_defined:
  assumes "cbook_inv s" and "cbook_grouped s" and "B_zero \<notin> set cs"
  shows "\<exists>t rs. cbook_calls cs s = Some (t, rs) \<and> cbook_inv t \<and> cbook_grouped t"
  using assms
proof (induction cs arbitrary: s)
  case Nil
  then show ?case by simp
next
  case (Cons c cs)
  from Cons.prems(3) have c: "c \<noteq> B_zero" and cs: "B_zero \<notin> set cs" by auto
  from cbook_grouped_call [OF Cons.prems(1,2) c] obtain s1 r
    where s1: "cbook_call c s = Some (s1, r)" and g1: "cbook_grouped s1" by blast
  from Cons.prems(1) s1 have i1: "cbook_inv s1" by (rule cbook_inv_call)
  from Cons.IH [OF i1 g1 cs] obtain t rs
    where "cbook_calls cs s1 = Some (t, rs)" and "cbook_inv t" and "cbook_grouped t" by blast
  with s1 show ?case by simp
qed

lemma cbook_calls_without_zero:
  assumes "B_zero \<notin> set cs"
  shows "\<exists>t rs. cbook_calls cs (cbook_create mem_obj mem) = Some (t, rs)
           \<and> cb_n_chars t \<le> cb_n_alloc_chars t \<and> cb_n_words t \<le> cb_n_alloc_words t
           \<and> cb_n_groups t \<le> cb_n_alloc_groups t"
proof -
  have "cbook_inv (cbook_create mem_obj mem)" by (rule cbook_inv_create)
  moreover have "cbook_grouped (cbook_create mem_obj mem)" by (rule cbook_grouped_create)
  ultimately obtain t rs
    where "cbook_calls cs (cbook_create mem_obj mem) = Some (t, rs)" and "cbook_inv t"
    using cbook_calls_defined [OF _ _ assms] by blast
  then show ?thesis by (auto simp: cbook_inv_def)
qed

text \<open>
  C10 does not hold of the code. The lengths stay within the capacities in the slot table
  and in the registry, and in the arena along every sequence of calls without
  \<open>cbook_zero\<close>. After one write, \<open>cbook_zero\<close> and a second write the
  book is error-free with one word and no group (\<open>cbook_zero\<close> leaves \<open>new_group\<close>
  unset, so the second write opens no group), and \<open>cbook_pop_word\<close> reads
  \<open>groups[n_groups - 1]\<close> with \<open>n_groups = 0\<close>, outside the array. When the value found
  there is 0, the index of the word to pop, \<open>--book->n_groups\<close> wraps: the book is then
  error-free with \<open>n_groups = SIZE_MAX\<close> and \<open>n_alloc_groups = 1\<close>, and
  \<open>cbook_groups_number\<close> reports \<open>SIZE_MAX\<close> groups.
\<close>

theorem C10_groups_exceed_capacity:
  "map_option snd (cbook_calls
       [B_write (True, True, True) ''a'', B_zero, B_write (True, True, True) ''b'',
        B_error, B_words_number, B_groups_number]
       (cbook_create True (True, True, True)))
     = Some [R_void, R_void, R_void, R_cerr CERR_NONE, R_size 1, R_size 0]
   \<and> cbook_calls
       [B_write (True, True, True) ''a'', B_zero, B_write (True, True, True) ''b'', B_pop_word]
       (cbook_create True (True, True, True)) = None
   \<and> cb_err (cbook_pop_word_read 0 (fst (the (cbook_calls
       [B_write (True, True, True) ''a'', B_zero, B_write (True, True, True) ''b'']
       (cbook_create True (True, True, True)))))) = CERR_NONE
   \<and> cb_n_groups (cbook_pop_word_read 0 (fst (the (cbook_calls
       [B_write (True, True, True) ''a'', B_zero, B_write (True, True, True) ''b'']
       (cbook_create True (True, True, True)))))) = SIZE_MAX
   \<and> cb_n_alloc_groups (cbook_pop_word_read 0 (fst (the (cbook_calls
       [B_write (True, True, True) ''a'', B_zero, B_write (True, True, True) ''b'']
       (cbook_create True (True, True, True)))))) = 1
   \<and> cb_n_alloc_groups (cbook_pop_word_read 0 (fst (the (cbook_calls
       [B_write (True, True, True) ''a'', B_zero, B_write (True, True, True) ''b'']
       (cbook_create True (True, True, True))))))
     < cb_n_groups (cbook_pop_word_read 0 (fst (the (cbook_calls
       [B_write (True, True, True) ''a'', B_zero, B_write (True, True, True) ''b'']
       (cbook_create True (True, True, True))))))
   \<and> cbook_groups_number (cbook_pop_word_read 0 (fst (the (cbook_calls
       [B_write (True, True, True) ''a'', B_zero, B_write (True, True, True) ''b'']
       (cbook_create True (True, True, True)))))) = SIZE_MAX"
  by (simp add: cbook_eval_simps cbook_zero_def cbook_pop_word_def cbook_pop_word_read_def
      cbook_error_def cbook_words_number_def cbook_groups_number_def)

section \<open>Overflow of a growth request\<close>

lemma cinputs_resize_overflow:
  "ci_err s = CERR_NONE \<Longrightarrow> SIZE_MAX < k * sizeof_islot \<Longrightarrow>
     cinputs_resize mem s k = s\<lparr>ci_err := CERR_OVERFLOW\<rparr>"
  by (auto simp: cinputs_resize_def resize_def safe_mul_def)

lemma cref_prealloc_overflow:
  assumes "cref_inv s" and "cr_err s = CERR_NONE" and "SIZE_MAX < k * sizeof_rslot"
  shows "cref_prealloc mem s k = s\<lparr>cr_err := CERR_OVERFLOW\<rparr>"
proof -
  from assms(1) have "cr_n_alloc s * sizeof_rslot \<le> SIZE_MAX"
    by (simp add: cref_inv_def)
  with assms(3) have "\<not> k \<le> cr_n_alloc s"
    by (auto simp: sizeof_rslot_def)
  with assms(2,3) show ?thesis
    by (simp add: cref_prealloc_def grow_cref_def safe_mul_def)
qed

lemma cref_push_overflow:
  assumes inv: "cref_inv s" and e: "cr_err s = CERR_NONE" and f: "fst (cref_find s p) = 0"
    and full: "cr_n_alloc s \<le> cr_n s" and big: "SIZE_MAX < cr_n_alloc s * 2 * sizeof_rslot"
  shows "cref_push mem s p = s\<lparr>cr_err := CERR_OVERFLOW\<rparr>"
proof -
  note a = cref_find_absent(1) [OF f e inv]
  from inv e have one: "1 \<le> cr_n_alloc s" by (auto simp: cref_inv_def)
  show ?thesis
  proof (cases "cr_n_alloc s * 2 \<le> SIZE_MAX")
    case False
    with e a full show ?thesis
      by (simp add: cref_push_def safe_mul_def)
  next
    case True
    then have w: "wrap (cr_n_alloc s * 2) = cr_n_alloc s * 2" by (rule wrap_small)
    from one have "\<not> cr_n_alloc s * 2 \<le> cr_n_alloc s" by simp
    with big have "grow_cref mem s (cr_n_alloc s * 2) = (s\<lparr>cr_err := CERR_OVERFLOW\<rparr>, False)"
      by (simp add: grow_cref_def safe_mul_def)
    with e a full True show ?thesis
      by (simp add: cref_push_def safe_mul_def w)
  qed
qed

lemma grow_cbook_overflow:
  "SIZE_MAX < kw * sizeof_size_t \<or> SIZE_MAX < kg * sizeof_size_t \<Longrightarrow>
     grow_cbook mem s kc kw kg = (s\<lparr>cb_err := CERR_OVERFLOW\<rparr>, False)"
  by (auto simp: grow_cbook_def safe_mul_def split: prod.splits)

lemma cbook_prealloc_overflow:
  "cb_err s = CERR_NONE \<Longrightarrow>
   SIZE_MAX < kw * sizeof_size_t \<or> SIZE_MAX < kg * sizeof_size_t \<Longrightarrow>
     cbook_prealloc mem s kc kw kg = s\<lparr>cb_err := CERR_OVERFLOW\<rparr>"
  by (simp add: cbook_prealloc_def grow_cbook_overflow)

lemma cbook_write_overflow:
  assumes inv: "cbook_inv s" and e: "cb_err s = CERR_NONE"
    and big: "(\<forall>j. cb_n_alloc_chars s * 2 ^ j \<le> SIZE_MAX
                  \<longrightarrow> cb_n_alloc_chars s * 2 ^ j < cb_n_chars s + length str + 1)
              \<or> cb_n_alloc_words s \<le> cb_n_words s
                \<and> SIZE_MAX < cb_n_alloc_words s * 2 * sizeof_size_t
              \<or> cb_n_alloc_groups s \<le> cb_n_groups s
                \<and> SIZE_MAX < cb_n_alloc_groups s * 2 * sizeof_size_t"
  shows "cbook_write mem s str = Some (s\<lparr>cb_err := CERR_OVERFLOW\<rparr>)"
proof -
  define nw where
    "nw = cb_n_alloc_words s * (if cb_n_alloc_words s \<le> cb_n_words s then 2 else 1)"
  define ng where
    "ng = cb_n_alloc_groups s * (if cb_n_alloc_groups s \<le> cb_n_groups s then 2 else 1)"
  from inv e have one: "1 \<le> cb_n_alloc_chars s" and bound: "cb_n_alloc_chars s \<le> SIZE_MAX"
    and le: "cb_n_chars s \<le> cb_n_alloc_chars s"
    by (simp_all add: cbook_inv_def)
  have g: "grow_cbook mem s nc nw ng = (s\<lparr>cb_err := CERR_OVERFLOW\<rparr>, False)"
    if fits: "fit_chars (length str + 1) (cb_n_chars s) (cb_n_alloc_chars s) = Some (Fits nc)"
    for nc
  proof -
    from fit_chars_Fits [OF one bound le fits] obtain j
      where "nc \<le> SIZE_MAX" and "cb_n_chars s + (length str + 1) \<le> nc"
        and "nc = cb_n_alloc_chars s * 2 ^ j"
      by blast
    then have "\<not> (\<forall>j. cb_n_alloc_chars s * 2 ^ j \<le> SIZE_MAX
                  \<longrightarrow> cb_n_alloc_chars s * 2 ^ j < cb_n_chars s + length str + 1)"
      by auto
    with big have "SIZE_MAX < nw * sizeof_size_t \<or> SIZE_MAX < ng * sizeof_size_t"
      by (auto simp: nw_def ng_def)
    then show ?thesis by (rule grow_cbook_overflow)
  qed
  from inv e show ?thesis
  proof (cases rule: cbook_write_cases [where str = str and mem = mem])
    case overflow
    then show ?thesis by simp
  next
    case (failed nc b1)
    from g [OF failed(1)] failed(2) have "b1 = s\<lparr>cb_err := CERR_OVERFLOW\<rparr>"
      by (simp add: nw_def ng_def)
    with failed(3) show ?thesis by simp
  next
    case (written nc b1)
    from g [OF written(1)] written(2) have False
      by (simp add: nw_def ng_def)
    then show ?thesis ..
  qed
qed

text \<open>
  C8: a growth or resize request whose byte size exceeds \<open>SIZE_MAX\<close> sets the error to
  OVERFLOW and changes nothing else, in each of the growth paths of the three containers:
  \<open>cinputs_resize\<close>; \<open>cref_prealloc\<close> and the doubling of \<open>cref_push\<close> when the registry
  is full and the pointer is new; \<open>cbook_prealloc\<close>; and \<open>cbook_write\<close>, when no
  doubling of the byte capacity within \<open>SIZE_MAX\<close> holds the string or when the word or
  group array is full and its doubled byte size exceeds \<open>SIZE_MAX\<close>.
\<close>

theorem C8_overflow_keeps_state:
  "(ci_err i = CERR_NONE \<and> SIZE_MAX < k * sizeof_islot
      \<longrightarrow> cinputs_resize mem i k = i\<lparr>ci_err := CERR_OVERFLOW\<rparr>)
   \<and> (cref_inv r \<and> cr_err r = CERR_NONE \<and> SIZE_MAX < k * sizeof_rslot
      \<longrightarrow> cref_prealloc mem r k = r\<lparr>cr_err := CERR_OVERFLOW\<rparr>)
   \<and> (cref_inv r \<and> cr_err r = CERR_NONE \<and> fst (cref_find r p) = 0
        \<and> cr_n_alloc r \<le> cr_n r \<and> SIZE_MAX < cr_n_alloc r * 2 * sizeof_rslot
      \<longrightarrow> cref_push mem r p = r\<lparr>cr_err := CERR_OVERFLOW\<rparr>)
   \<and> (cb_err b = CERR_NONE
        \<and> (SIZE_MAX < kw * sizeof_size_t \<or> SIZE_MAX < kg * sizeof_size_t)
      \<longrightarrow> cbook_prealloc mems b kc kw kg = b\<lparr>cb_err := CERR_OVERFLOW\<rparr>)
   \<and> (cbook_inv b \<and> cb_err b = CERR_NONE
        \<and> ((\<forall>j. cb_n_alloc_chars b * 2 ^ j \<le> SIZE_MAX
                  \<longrightarrow> cb_n_alloc_chars b * 2 ^ j < cb_n_chars b + length str + 1)
           \<or> cb_n_alloc_words b \<le> cb_n_words b
             \<and> SIZE_MAX < cb_n_alloc_words b * 2 * sizeof_size_t
           \<or> cb_n_alloc_groups b \<le> cb_n_groups b
             \<and> SIZE_MAX < cb_n_alloc_groups b * 2 * sizeof_size_t)
      \<longrightarrow> cbook_write mems b str = Some (b\<lparr>cb_err := CERR_OVERFLOW\<rparr>))"
proof (intro conjI impI)
  assume "ci_err i = CERR_NONE \<and> SIZE_MAX < k * sizeof_islot"
  then show "cinputs_resize mem i k = i\<lparr>ci_err := CERR_OVERFLOW\<rparr>"
    by (simp add: cinputs_resize_overflow)
next
  assume "cref_inv r \<and> cr_err r = CERR_NONE \<and> SIZE_MAX < k * sizeof_rslot"
  then show "cref_prealloc mem r k = r\<lparr>cr_err := CERR_OVERFLOW\<rparr>"
    by (simp add: cref_prealloc_overflow)
next
  assume "cref_inv r \<and> cr_err r = CERR_NONE \<and> fst (cref_find r p) = 0
        \<and> cr_n_alloc r \<le> cr_n r \<and> SIZE_MAX < cr_n_alloc r * 2 * sizeof_rslot"
  then show "cref_push mem r p = r\<lparr>cr_err := CERR_OVERFLOW\<rparr>"
    by (simp add: cref_push_overflow)
next
  assume "cb_err b = CERR_NONE
        \<and> (SIZE_MAX < kw * sizeof_size_t \<or> SIZE_MAX < kg * sizeof_size_t)"
  then show "cbook_prealloc mems b kc kw kg = b\<lparr>cb_err := CERR_OVERFLOW\<rparr>"
    by (simp add: cbook_prealloc_overflow)
next
  assume a: "cbook_inv b \<and> cb_err b = CERR_NONE
        \<and> ((\<forall>j. cb_n_alloc_chars b * 2 ^ j \<le> SIZE_MAX
                  \<longrightarrow> cb_n_alloc_chars b * 2 ^ j < cb_n_chars b + length str + 1)
           \<or> cb_n_alloc_words b \<le> cb_n_words b
             \<and> SIZE_MAX < cb_n_alloc_words b * 2 * sizeof_size_t
           \<or> cb_n_alloc_groups b \<le> cb_n_groups b
             \<and> SIZE_MAX < cb_n_alloc_groups b * 2 * sizeof_size_t)"
  then have "cbook_inv b" and "cb_err b = CERR_NONE" by simp_all
  moreover from a have "(\<forall>j. cb_n_alloc_chars b * 2 ^ j \<le> SIZE_MAX
                  \<longrightarrow> cb_n_alloc_chars b * 2 ^ j < cb_n_chars b + length str + 1)
           \<or> cb_n_alloc_words b \<le> cb_n_words b
             \<and> SIZE_MAX < cb_n_alloc_words b * 2 * sizeof_size_t
           \<or> cb_n_alloc_groups b \<le> cb_n_groups b
             \<and> SIZE_MAX < cb_n_alloc_groups b * 2 * sizeof_size_t"
    by blast
  ultimately show "cbook_write mems b str = Some (b\<lparr>cb_err := CERR_OVERFLOW\<rparr>)"
    by (rule cbook_write_overflow)
qed

theorem C8_overflow_keeps_state_witness:
  "cinputs_resize True (cinputs_create True True 2) (2 ^ 63)
     = (cinputs_create True True 2)\<lparr>ci_err := CERR_OVERFLOW\<rparr>
   \<and> cref_prealloc True (cref_create True True) (2 ^ 63)
     = (cref_create True True)\<lparr>cr_err := CERR_OVERFLOW\<rparr>
   \<and> cref_push True
       \<lparr>cr_slots = map (\<lambda>j. \<lparr>rslot_ptr = j, rslot_n_ref = 1\<rparr>) [0..<2 ^ 59],
        cr_n = 2 ^ 59, cr_n_alloc = 2 ^ 59, cr_default_ptr = NULL, cr_err = CERR_NONE\<rparr>
       (2 ^ 59)
     = \<lparr>cr_slots = map (\<lambda>j. \<lparr>rslot_ptr = j, rslot_n_ref = 1\<rparr>) [0..<2 ^ 59],
        cr_n = 2 ^ 59, cr_n_alloc = 2 ^ 59, cr_default_ptr = NULL, cr_err = CERR_OVERFLOW\<rparr>
   \<and> cbook_prealloc (True, True, True) (cbook_create True (True, True, True)) 1 (2 ^ 63) 1
     = (cbook_create True (True, True, True))\<lparr>cb_err := CERR_OVERFLOW\<rparr>
   \<and> cbook_write (True, True, True)
       \<lparr>cb_chars = replicate (2 ^ 63) NUL, cb_words = [0], cb_groups = [0],
        cb_n_chars = 2 ^ 63, cb_n_words = 1, cb_n_groups = 1,
        cb_n_alloc_chars = 2 ^ 63, cb_n_alloc_words = 1, cb_n_alloc_groups = 1,
        cb_new_group = False, cb_err = CERR_NONE\<rparr> ''a''
     = Some \<lparr>cb_chars = replicate (2 ^ 63) NUL, cb_words = [0], cb_groups = [0],
        cb_n_chars = 2 ^ 63, cb_n_words = 1, cb_n_groups = 1,
        cb_n_alloc_chars = 2 ^ 63, cb_n_alloc_words = 1, cb_n_alloc_groups = 1,
        cb_new_group = False, cb_err = CERR_OVERFLOW\<rparr>"
proof -
  define K :: nat where "K = 2 ^ 63"
  define N :: nat where "N = 2 ^ 59"
  define i0 where "i0 = cinputs_create True True 2"
  define r0 where "r0 = cref_create True True"
  define r1 where "r1 = \<lparr>cr_slots = map (\<lambda>j. \<lparr>rslot_ptr = j, rslot_n_ref = 1\<rparr>) [0..<N],
        cr_n = N, cr_n_alloc = N, cr_default_ptr = NULL, cr_err = CERR_NONE\<rparr>"
  define b0 where "b0 = cbook_create True (True, True, True)"
  define b1 where "b1 = \<lparr>cb_chars = replicate K NUL, cb_words = [0], cb_groups = [0],
        cb_n_chars = K, cb_n_words = 1, cb_n_groups = 1,
        cb_n_alloc_chars = K, cb_n_alloc_words = 1, cb_n_alloc_groups = 1,
        cb_new_group = False, cb_err = CERR_NONE\<rparr>"
  have K: "K \<le> SIZE_MAX" "SIZE_MAX < K * 2" "0 < K"
    "SIZE_MAX < K * sizeof_islot" "SIZE_MAX < K * sizeof_rslot" "SIZE_MAX < K * sizeof_size_t"
    by (simp_all add: K_def SIZE_MAX_num sizeof_islot_def sizeof_rslot_def sizeof_size_t_def)
  have N: "N * sizeof_rslot \<le> SIZE_MAX" "SIZE_MAX < N * 2 * sizeof_rslot" "1 \<le> N"
    by (simp_all add: N_def SIZE_MAX_num sizeof_rslot_def)
  have ei: "ci_err i0 = CERR_NONE"
    by (simp add: i0_def cinputs_create_simps)
  have er: "cr_err r0 = CERR_NONE"
    by (simp add: r0_def cref_eval_simps)
  have ir: "cref_inv r0"
    unfolding r0_def by (rule cref_inv_create)
  have eb: "cb_err b0 = CERR_NONE"
    by (simp add: b0_def cbook_eval_simps)
  have "map rslot_ptr (map (\<lambda>j. \<lparr>rslot_ptr = j, rslot_n_ref = 1\<rparr>) [0..<N]) = [0..<N]"
    by (simp add: comp_def)
  with N have ir1: "cref_inv r1"
    by (simp add: cref_inv_unfold r1_def list_all_iff)
  have "scan (\<lambda>c. rslot_ptr c = N) (map (\<lambda>j. \<lparr>rslot_ptr = j, rslot_n_ref = 1\<rparr>) [0..<N]) 0
          = None"
    by (simp add: scan_None_iff)
  then have f1: "fst (cref_find r1 N) = 0"
    by (simp add: cref_find_def r1_def)
  have r1e: "cr_err r1 = CERR_NONE" "cr_n_alloc r1 \<le> cr_n r1" "cr_n_alloc r1 = N"
    by (simp_all add: r1_def)
  from K(1,3) have ib1: "cbook_inv b1"
    by (simp add: cbook_inv_def b1_def sizeof_size_t_def SIZE_MAX_num)
  have b1e: "cb_err b1 = CERR_NONE" "cb_n_alloc_chars b1 = K" "cb_n_chars b1 = K"
    by (simp_all add: b1_def)
  have dbl: "\<forall>j. K * 2 ^ j \<le> SIZE_MAX \<longrightarrow> K * 2 ^ j < K + length ''a'' + 1"
  proof (intro allI impI)
    fix j assume a: "K * 2 ^ j \<le> SIZE_MAX"
    have "j = 0"
    proof (rule ccontr)
      assume "j \<noteq> 0"
      then obtain m where "j = Suc m" by (cases j) simp_all
      then have "K * 2 \<le> K * 2 ^ j" by simp
      with a K(2) show False by simp
    qed
    then show "K * 2 ^ j < K + length ''a'' + 1" by simp
  qed
  note A = C8_overflow_keeps_state [where i = i0 and k = K and mem = True and r = r0
      and b = b0 and kw = K and kg = 1 and kc = 1 and mems = "(True, True, True)"]
  note B = C8_overflow_keeps_state [where r = r1 and p = N and mem = True and b = b1
      and str = "''a''" and mems = "(True, True, True)"]
  from A ei K(4) have 1: "cinputs_resize True i0 K = i0\<lparr>ci_err := CERR_OVERFLOW\<rparr>"
    by blast
  from A ir er K(5) have 2: "cref_prealloc True r0 K = r0\<lparr>cr_err := CERR_OVERFLOW\<rparr>"
    by blast
  from B ir1 r1e(1,2) f1 N(2) have 3: "cref_push True r1 N = r1\<lparr>cr_err := CERR_OVERFLOW\<rparr>"
    unfolding r1e(3) by blast
  from A eb K(6)
  have 4: "cbook_prealloc (True, True, True) b0 1 K 1 = b0\<lparr>cb_err := CERR_OVERFLOW\<rparr>"
    by blast
  from B ib1 b1e(1) dbl
  have 5: "cbook_write (True, True, True) b1 ''a'' = Some (b1\<lparr>cb_err := CERR_OVERFLOW\<rparr>)"
    unfolding b1e(2,3) by blast
  have r1': "r1\<lparr>cr_err := CERR_OVERFLOW\<rparr>
               = \<lparr>cr_slots = map (\<lambda>j. \<lparr>rslot_ptr = j, rslot_n_ref = 1\<rparr>) [0..<N],
                  cr_n = N, cr_n_alloc = N, cr_default_ptr = NULL, cr_err = CERR_OVERFLOW\<rparr>"
    by (simp add: r1_def)
  have b1': "b1\<lparr>cb_err := CERR_OVERFLOW\<rparr>
               = \<lparr>cb_chars = replicate K NUL, cb_words = [0], cb_groups = [0],
                  cb_n_chars = K, cb_n_words = 1, cb_n_groups = 1,
                  cb_n_alloc_chars = K, cb_n_alloc_words = 1, cb_n_alloc_groups = 1,
                  cb_new_group = False, cb_err = CERR_OVERFLOW\<rparr>"
    by (simp add: b1_def)
  from 1 2 3 4 5 have "cinputs_resize True i0 K = i0\<lparr>ci_err := CERR_OVERFLOW\<rparr>
      \<and> cref_prealloc True r0 K = r0\<lparr>cr_err := CERR_OVERFLOW\<rparr>
      \<and> cref_push True r1 N = r1\<lparr>cr_err := CERR_OVERFLOW\<rparr>
      \<and> cbook_prealloc (True, True, True) b0 1 K 1 = b0\<lparr>cb_err := CERR_OVERFLOW\<rparr>
      \<and> cbook_write (True, True, True) b1 ''a'' = Some (b1\<lparr>cb_err := CERR_OVERFLOW\<rparr>)"
    by (intro conjI)
  then show ?thesis
    unfolding r1' b1' unfolding i0_def r0_def r1_def b0_def b1_def K_def N_def .
qed

section \<open>String arena: opening a group\<close>

text \<open>
  C6, as the claim states it, fails: on a fresh book no group has been opened, yet
  \<open>cbook_undo_new_group\<close> after \<open>cbook_prepare_new_group\<close> does not clear the flag.
\<close>

theorem C6_counterexample:
  "cb_err (cbook_create True (True, True, True)) = CERR_NONE
   \<and> cb_n_groups (cbook_create True (True, True, True)) = 0
   \<and> cb_new_group (cbook_prepare_new_group (cbook_create True (True, True, True)))
   \<and> cb_new_group (cbook_undo_new_group
        (cbook_prepare_new_group (cbook_create True (True, True, True))))"
  by (simp add: cbook_eval_simps cbook_prepare_new_group_def cbook_undo_new_group_def)

lemma cbook_group_opened:
  assumes inv: "cbook_inv s" and e: "cb_err s = CERR_NONE"
    and w: "cbook_write mem (cbook_prepare_new_group s) str = Some t"
    and ok: "cb_err t = CERR_NONE"
  shows "cb_n_groups t = cb_n_groups s + 1" and "cb_groups t ! cb_n_groups s = cb_n_words s"
    and "\<not> cb_new_group t" and "cbook_group_length t (cb_n_groups s) = 1"
proof -
  define p where "p = cbook_prepare_new_group s"
  from e have p: "p = s\<lparr>cb_new_group := True\<rparr>"
    by (simp add: p_def cbook_prepare_new_group_def)
  from inv have ip: "cbook_inv p"
    unfolding p_def by (rule cbook_inv_prepare_new_group)
  from e have ep: "cb_err p = CERR_NONE" by (simp add: p)
  note r = cbook_write_ok [OF ip ep w [folded p_def] ok]
  from r show g: "cb_n_groups t = cb_n_groups s + 1" by (simp add: p)
  from r show f: "cb_groups t ! cb_n_groups s = cb_n_words s" by (simp add: p)
  from r show "\<not> cb_new_group t" by simp
  from r have nw: "cb_n_words t = cb_n_words s + 1" and it: "cbook_inv t" by (simp_all add: p)
  from it have "cb_n_words t \<le> SIZE_MAX"
    by (simp add: cbook_inv_def sizeof_size_t_def)
  with nw have "size_sub (cb_n_words s + 1) (cb_n_words s) = cb_n_words s + 1 - cb_n_words s"
    by (intro size_sub_le) simp_all
  with ok g f nw show "cbook_group_length t (cb_n_groups s) = 1"
    by (simp add: cbook_group_length_def group_size_def)
qed

text \<open>
  C6, amended: on an error-free book, \<open>cbook_prepare_new_group\<close> sets the flag, and the
  next successful write opens a new group: the number of groups grows by one, the new
  group starts at the word written and holds that one word, and the write clears the
  flag. \<open>cbook_undo_new_group\<close> clears the flag when the book has at least one group, so
  that it reverts \<open>cbook_prepare_new_group\<close> there when the flag was clear before; it does
  nothing when the book has no group, where the flag stays set; and it is a no-op when
  the book has a group and the flag is already clear.
\<close>

theorem C6_new_group_flag:
  assumes "cbook_inv s" and "cb_err s = CERR_NONE"
  shows "cbook_prepare_new_group s = s\<lparr>cb_new_group := True\<rparr>
     \<and> (cbook_write mem (cbook_prepare_new_group s) str = Some t \<and> cb_err t = CERR_NONE
          \<longrightarrow> cb_n_groups t = cb_n_groups s + 1
              \<and> cb_groups t ! cb_n_groups s = cb_n_words s
              \<and> cbook_group_length t (cb_n_groups s) = 1
              \<and> \<not> cb_new_group t)
     \<and> (1 \<le> cb_n_groups s
          \<longrightarrow> cbook_undo_new_group (cbook_prepare_new_group s) = s\<lparr>cb_new_group := False\<rparr>)
     \<and> (1 \<le> cb_n_groups s \<and> \<not> cb_new_group s
          \<longrightarrow> cbook_undo_new_group (cbook_prepare_new_group s) = s
              \<and> cbook_undo_new_group s = s)
     \<and> (cb_n_groups s = 0
          \<longrightarrow> cbook_undo_new_group (cbook_prepare_new_group s) = s\<lparr>cb_new_group := True\<rparr>
              \<and> cbook_undo_new_group s = s)"
proof -
  have "cbook_write mem (cbook_prepare_new_group s) str = Some t \<and> cb_err t = CERR_NONE
          \<longrightarrow> cb_n_groups t = cb_n_groups s + 1
              \<and> cb_groups t ! cb_n_groups s = cb_n_words s
              \<and> cbook_group_length t (cb_n_groups s) = 1
              \<and> \<not> cb_new_group t"
    using cbook_group_opened [OF assms, of mem str t] by blast
  moreover from assms(2)
  have "cbook_prepare_new_group s = s\<lparr>cb_new_group := True\<rparr>"
    by (simp add: cbook_prepare_new_group_def)
  moreover from assms(2) have "1 \<le> cb_n_groups s
          \<longrightarrow> cbook_undo_new_group (cbook_prepare_new_group s) = s\<lparr>cb_new_group := False\<rparr>"
    by (simp add: cbook_prepare_new_group_def cbook_undo_new_group_def)
  moreover from assms(2) have "1 \<le> cb_n_groups s \<and> \<not> cb_new_group s
          \<longrightarrow> cbook_undo_new_group (cbook_prepare_new_group s) = s
              \<and> cbook_undo_new_group s = s"
    by (simp add: cbook_prepare_new_group_def cbook_undo_new_group_def)
  moreover from assms(2) have "cb_n_groups s = 0
          \<longrightarrow> cbook_undo_new_group (cbook_prepare_new_group s) = s\<lparr>cb_new_group := True\<rparr>
              \<and> cbook_undo_new_group s = s"
    by (simp add: cbook_prepare_new_group_def cbook_undo_new_group_def)
  ultimately show ?thesis by blast
qed

theorem C6_new_group_flag_witness:
  "cb_n_groups (the (cbook_write (True, True, True) (cbook_create True (True, True, True)) ''a''))
     = 1
   \<and> cb_n_groups (the (cbook_write (True, True, True) (cbook_prepare_new_group
        (the (cbook_write (True, True, True) (cbook_create True (True, True, True)) ''a'')))
        ''b'')) = 2
   \<and> cb_groups (the (cbook_write (True, True, True) (cbook_prepare_new_group
        (the (cbook_write (True, True, True) (cbook_create True (True, True, True)) ''a'')))
        ''b'')) ! 1 = 1
   \<and> cbook_group_length (the (cbook_write (True, True, True) (cbook_prepare_new_group
        (the (cbook_write (True, True, True) (cbook_create True (True, True, True)) ''a'')))
        ''b'')) 1 = 1
   \<and> cbook_undo_new_group (cbook_prepare_new_group
        (the (cbook_write (True, True, True) (cbook_create True (True, True, True)) ''a'')))
     = the (cbook_write (True, True, True) (cbook_create True (True, True, True)) ''a'')
   \<and> cbook_undo_new_group (cbook_prepare_new_group (cbook_create True (True, True, True)))
     = (cbook_create True (True, True, True))\<lparr>cb_new_group := True\<rparr>"
proof -
  define c0 where "c0 = cbook_create True (True, True, True)"
  define s1 where "s1 = the (cbook_write (True, True, True) c0 ''a'')"
  define t1 where "t1 = the (cbook_write (True, True, True) (cbook_prepare_new_group s1) ''b'')"
  have i0: "cbook_inv c0"
    unfolding c0_def by (rule cbook_inv_create)
  have e0: "cb_err c0 = CERR_NONE" and g0: "cb_n_groups c0 = 0"
    by (simp_all add: c0_def cbook_eval_simps)
  from cbook_write_total [OF i0, of "(True, True, True)" "''a''"]
  have w0: "cbook_write (True, True, True) c0 ''a'' = Some s1"
    by (auto simp: s1_def)
  with i0 have i1: "cbook_inv s1" by (rule cbook_inv_write)
  have e1: "cb_err s1 = CERR_NONE" and g1: "cb_n_groups s1 = 1" and n1: "cb_n_words s1 = 1"
    and f1: "\<not> cb_new_group s1"
    by (simp_all add: s1_def c0_def cbook_eval_simps)
  from i1 have "cbook_inv (cbook_prepare_new_group s1)"
    by (rule cbook_inv_prepare_new_group)
  from cbook_write_total [OF this, of "(True, True, True)" "''b''"]
  have w1: "cbook_write (True, True, True) (cbook_prepare_new_group s1) ''b'' = Some t1"
    by (auto simp: t1_def)
  have ok1: "cb_err t1 = CERR_NONE"
    by (simp add: t1_def s1_def c0_def cbook_eval_simps cbook_prepare_new_group_def)
  note A = C6_new_group_flag [OF i1 e1, of "(True, True, True)" "''b''" t1]
  note B = C6_new_group_flag [OF i0 e0]
  from A w1 ok1 have "cb_n_groups t1 = cb_n_groups s1 + 1
      \<and> cb_groups t1 ! cb_n_groups s1 = cb_n_words s1
      \<and> cbook_group_length t1 (cb_n_groups s1) = 1"
    by blast
  then have 1: "cb_n_groups t1 = 2 \<and> cb_groups t1 ! 1 = 1 \<and> cbook_group_length t1 1 = 1"
    unfolding g1 n1 by simp
  from g1 have "1 \<le> cb_n_groups s1" by simp
  with A f1 have 2: "cbook_undo_new_group (cbook_prepare_new_group s1) = s1"
    by blast
  from B g0 have 3: "cbook_undo_new_group (cbook_prepare_new_group c0)
                       = c0\<lparr>cb_new_group := True\<rparr>"
    by blast
  from g1 1 2 3 have "cb_n_groups s1 = 1
      \<and> cb_n_groups t1 = 2 \<and> cb_groups t1 ! 1 = 1 \<and> cbook_group_length t1 1 = 1
      \<and> cbook_undo_new_group (cbook_prepare_new_group s1) = s1
      \<and> cbook_undo_new_group (cbook_prepare_new_group c0) = c0\<lparr>cb_new_group := True\<rparr>"
    by (intro conjI) simp_all
  then show ?thesis
    unfolding t1_def s1_def c0_def .
qed

section \<open>String arena: \<open>cbook_zero\<close> and \<open>cbook_clear\<close>\<close>

text \<open>
  What \<open>cbook_zero\<close> does on an error-free book, next to \<open>cbook_clear\<close>: the same three
  counts, the byte buffer filled with NUL, and the flag \<open>new_group\<close> left as it was,
  where \<open>cbook_clear\<close> sets it.
\<close>

lemma cbook_zero_clear:
  "cb_err s = CERR_NONE \<Longrightarrow>
     cbook_zero s
       = (cbook_clear s)\<lparr>cb_chars := replicate (cb_n_alloc_chars s) NUL
                                      @ drop (cb_n_alloc_chars s) (cb_chars s),
                         cb_new_group := cb_new_group s\<rparr>"
  by (simp add: cbook_zero_def cbook_clear_def)

text \<open>
  C7 does not hold of the code: \<open>cbook_zero\<close> resets the three counts and fills the buffer
  with NUL, but it leaves \<open>new_group\<close> unset where \<open>cbook_clear\<close> sets it, and the
  operations that follow behave differently. After one write, \<open>cbook_zero\<close> and a second
  write, the book reports one word and no group, and its flag is unset; with
  \<open>cbook_clear\<close> in the place of \<open>cbook_zero\<close> it reports one word and one group.
\<close>

theorem C7_zero_differs_from_clear:
  "map_option snd (cbook_calls
       [B_write (True, True, True) ''a'', B_zero, B_length, B_words_number, B_groups_number,
        B_write (True, True, True) ''b'', B_words_number, B_groups_number, B_error]
       (cbook_create True (True, True, True)))
     = Some [R_void, R_void, R_size 0, R_size 0, R_size 0,
             R_void, R_size 1, R_size 0, R_cerr CERR_NONE]
   \<and> map_option snd (cbook_calls
       [B_write (True, True, True) ''a'', B_clear, B_length, B_words_number, B_groups_number,
        B_write (True, True, True) ''b'', B_words_number, B_groups_number, B_error]
       (cbook_create True (True, True, True)))
     = Some [R_void, R_void, R_size 0, R_size 0, R_size 0,
             R_void, R_size 1, R_size 1, R_cerr CERR_NONE]
   \<and> map_option (\<lambda>r. (cb_new_group (fst r), cb_chars (fst r)))
       (cbook_calls [B_write (True, True, True) ''a'', B_zero]
          (cbook_create True (True, True, True)))
     = Some (False, [NUL, NUL])
   \<and> map_option (\<lambda>r. (cb_new_group (fst r), cb_chars (fst r)))
       (cbook_calls [B_write (True, True, True) ''a'', B_clear]
          (cbook_create True (True, True, True)))
     = Some (True, [CHR ''a'', NUL])"
  by (simp add: cbook_eval_simps cbook_zero_def cbook_clear_def cbook_length_def
      cbook_words_number_def cbook_groups_number_def cbook_error_def numeral_2_eq_2)

section \<open>String arena: \<open>cbook_write\<close> and \<open>cbook_pop_word\<close>\<close>

text \<open>
  \<open>cbook_pop_word\<close> undoes a successful \<open>cbook_write\<close> on a book whose flag is set or
  that holds a group: on any book \<open>u\<close> that agrees with the book after the write on the
  three counts and on the live word and group offsets, it gives a book that agrees in
  the same way with the book before the write.
\<close>

lemma cbook_pop_word_write:
  assumes inv: "cbook_inv s" and e: "cb_err s = CERR_NONE"
    and pre: "cb_new_group s \<or> 1 \<le> cb_n_groups s"
    and w: "cbook_write mem s str = Some s1" and ok: "cb_err s1 = CERR_NONE"
    and iu: "cbook_inv u" and eu: "cb_err u = CERR_NONE"
    and c: "cb_n_chars u = cb_n_chars s1" "cb_n_words u = cb_n_words s1"
      "cb_n_groups u = cb_n_groups s1"
    and tw: "take (cb_n_words s1) (cb_words u) = take (cb_n_words s1) (cb_words s1)"
    and tg: "take (cb_n_groups s1) (cb_groups u) = take (cb_n_groups s1) (cb_groups s1)"
  shows "\<exists>v. cbook_pop_word u = Some v \<and> cbook_inv v \<and> cb_err v = CERR_NONE
           \<and> cb_n_chars v = cb_n_chars s \<and> cb_n_words v = cb_n_words s
           \<and> cb_n_groups v = cb_n_groups s
           \<and> take (cb_n_words s) (cb_words v) = take (cb_n_words s) (cb_words s)
           \<and> take (cb_n_groups s) (cb_groups v) = take (cb_n_groups s) (cb_groups s)"
proof -
  note r = cbook_write_ok [OF inv e w ok]
  from r have nw: "cb_n_words s1 = cb_n_words s + 1"
    and ng: "cb_n_groups s1 = (if cb_new_group s then cb_n_groups s + 1 else cb_n_groups s)"
    and rw: "take (cb_n_words s) (cb_words s1) = take (cb_n_words s) (cb_words s)"
    and rg: "take (cb_n_groups s) (cb_groups s1) = take (cb_n_groups s) (cb_groups s)"
    and lw: "cb_words s1 ! cb_n_words s = cb_n_chars s"
    and lg: "cb_new_group s \<longrightarrow> cb_groups s1 ! cb_n_groups s = cb_n_words s"
    by simp_all
  have nth_w: "cb_words u ! i = cb_words s1 ! i" if "i < cb_n_words s1" for i
    using nth_take [OF that, of "cb_words u"] nth_take [OF that, of "cb_words s1"] tw by simp
  have nth_g: "cb_groups u ! i = cb_groups s1 ! i" if "i < cb_n_groups s1" for i
    using nth_take [OF that, of "cb_groups u"] nth_take [OF that, of "cb_groups s1"] tg by simp
  have nth_g0: "cb_groups s1 ! i = cb_groups s ! i" if "i < cb_n_groups s" for i
    using nth_take [OF that, of "cb_groups s1"] nth_take [OF that, of "cb_groups s"] rg by simp
  have uw: "take (cb_n_words s) (cb_words u) = take (cb_n_words s) (cb_words s)"
  proof -
    have "take (cb_n_words s) (cb_words u)
            = take (cb_n_words s) (take (cb_n_words s1) (cb_words u))"
      by (simp add: nw min_def)
    also have "\<dots> = take (cb_n_words s) (take (cb_n_words s1) (cb_words s1))"
      by (simp only: tw)
    also have "\<dots> = take (cb_n_words s) (cb_words s1)"
      by (simp add: nw min_def)
    finally show ?thesis by (simp only: rw)
  qed
  have ug: "take (cb_n_groups s) (cb_groups u) = take (cb_n_groups s) (cb_groups s)"
  proof -
    have le: "cb_n_groups s \<le> cb_n_groups s1" by (simp add: ng)
    have "take (cb_n_groups s) (cb_groups u)
            = take (cb_n_groups s) (take (cb_n_groups s1) (cb_groups u))"
      using le by (simp add: min_def)
    also have "\<dots> = take (cb_n_groups s) (take (cb_n_groups s1) (cb_groups s1))"
      by (simp only: tg)
    also have "\<dots> = take (cb_n_groups s) (cb_groups s1)"
      using le by (simp add: min_def)
    finally show ?thesis by (simp only: rg)
  qed
  from c(2) nw have w0: "cb_n_words u \<noteq> 0" and w1: "cb_n_words u - Suc 0 = cb_n_words s"
    by simp_all
  from c(3) ng pre have g0: "cb_n_groups u \<noteq> 0" by auto
  note p = cbook_pop_word_group [OF iu eu w0 g0]
  from nth_w [of "cb_n_words s"] lw nw have last_w: "cb_words u ! cb_n_words s = cb_n_chars s"
    by simp
  define v where "v = the (cbook_pop_word u)"
  from p have pv: "cbook_pop_word u = Some v" by (simp add: v_def)
  with iu have iv: "cbook_inv v" by (rule cbook_inv_pop_word)
  have "cb_err v = CERR_NONE \<and> cb_n_chars v = cb_n_chars s \<and> cb_n_words v = cb_n_words s
        \<and> cb_n_groups v = cb_n_groups s \<and> cb_words v = cb_words u \<and> cb_groups v = cb_groups u"
  proof (cases "cb_new_group s")
    case True
    with ng c(3) have gu: "cb_n_groups u - Suc 0 = cb_n_groups s" and "cb_n_groups s < cb_n_groups s1"
      by simp_all
    from nth_g [OF this(2)] lg True have "cb_groups u ! cb_n_groups s = cb_n_words s"
      by simp
    with p pv eu last_w show ?thesis
      by (simp add: gu w1)
  next
    case False
    with pre ng c(3) have gu: "cb_n_groups u = cb_n_groups s" and g1: "cb_n_groups s - 1 < cb_n_groups s"
      by simp_all
    from g1 have "cb_n_groups s - 1 < cb_n_groups s1" by (simp add: ng False)
    from nth_g [OF this] nth_g0 [OF g1]
    have "cb_groups u ! (cb_n_groups s - 1) = cb_groups s ! (cb_n_groups s - 1)" by simp
    moreover from inv g1 have "cb_groups s ! (cb_n_groups s - 1) < cb_n_words s"
      unfolding cbook_inv_nth by blast
    ultimately have "cb_groups u ! (cb_n_groups u - Suc 0) \<noteq> cb_n_words u - Suc 0"
      by (simp add: gu w1)
    with p pv eu last_w show ?thesis
      by (simp add: gu w1)
  qed
  with pv iv uw ug show ?thesis by simp
qed

lemma cbook_writes_error: "cb_err s \<noteq> CERR_NONE \<Longrightarrow> cbook_writes ws s = Some s"
proof (induction ws)
  case Nil
  then show ?case by simp
next
  case (Cons a ws)
  obtain mem str where a: "a = (mem, str)" by (cases a)
  from Cons show ?case by (simp add: a cbook_write_def)
qed

lemma cbook_pop_words_Suc:
  "cbook_pop_words (Suc j) s
     = (case cbook_pop_words j s of None \<Rightarrow> None | Some s1 \<Rightarrow> cbook_pop_word s1)"
proof (induction j arbitrary: s)
  case 0
  then show ?case by (simp split: option.splits)
next
  case (Suc j)
  show ?case
  proof (cases "cbook_pop_word s")
    case None
    then show ?thesis by simp
  next
    case (Some s1)
    from Suc [of s1] Some show ?thesis by simp
  qed
qed

lemma cbook_pop_words_writes:
  assumes "cbook_inv s" and "cb_err s = CERR_NONE"
    and "cb_new_group s \<or> 1 \<le> cb_n_groups s"
    and "cbook_writes ws s = Some t" and "cb_err t = CERR_NONE"
    and "cbook_inv u" and "cb_err u = CERR_NONE"
    and "cb_n_chars u = cb_n_chars t" and "cb_n_words u = cb_n_words t"
    and "cb_n_groups u = cb_n_groups t"
    and "take (cb_n_words t) (cb_words u) = take (cb_n_words t) (cb_words t)"
    and "take (cb_n_groups t) (cb_groups u) = take (cb_n_groups t) (cb_groups t)"
  shows "\<exists>v. cbook_pop_words (length ws) u = Some v \<and> cbook_inv v \<and> cb_err v = CERR_NONE
           \<and> cb_n_chars v = cb_n_chars s \<and> cb_n_words v = cb_n_words s
           \<and> cb_n_groups v = cb_n_groups s
           \<and> take (cb_n_words s) (cb_words v) = take (cb_n_words s) (cb_words s)
           \<and> take (cb_n_groups s) (cb_groups v) = take (cb_n_groups s) (cb_groups s)"
  using assms
proof (induction ws arbitrary: s)
  case Nil
  then show ?case by simp
next
  case (Cons a ws)
  obtain mem str where a: "a = (mem, str)" by (cases a)
  from cbook_write_total [OF Cons.prems(1), of mem str] obtain s1
    where w: "cbook_write mem s str = Some s1" by blast
  with Cons.prems(4) have ws: "cbook_writes ws s1 = Some t" by (simp add: a)
  have e1: "cb_err s1 = CERR_NONE"
  proof (rule ccontr)
    assume "cb_err s1 \<noteq> CERR_NONE"
    from cbook_writes_error [OF this, of ws] ws this Cons.prems(5) show False by simp
  qed
  from Cons.prems(1) w have i1: "cbook_inv s1" by (rule cbook_inv_write)
  from cbook_write_ok [OF Cons.prems(1,2) w e1] Cons.prems(3)
  have p1: "cb_new_group s1 \<or> 1 \<le> cb_n_groups s1" by auto
  from Cons.IH [OF i1 e1 p1 ws Cons.prems(5-12)] obtain v1
    where v1: "cbook_pop_words (length ws) u = Some v1" "cbook_inv v1" "cb_err v1 = CERR_NONE"
      "cb_n_chars v1 = cb_n_chars s1" "cb_n_words v1 = cb_n_words s1"
      "cb_n_groups v1 = cb_n_groups s1"
      "take (cb_n_words s1) (cb_words v1) = take (cb_n_words s1) (cb_words s1)"
      "take (cb_n_groups s1) (cb_groups v1) = take (cb_n_groups s1) (cb_groups s1)"
    by blast
  from cbook_pop_word_write [OF Cons.prems(1,2,3) w e1 v1(2-8)] v1(1) show ?case
    by (simp add: cbook_pop_words_Suc del: cbook_pop_words.simps)
qed

text \<open>
  The stack law of \<open>cbook_write\<close> and \<open>cbook_pop_word\<close>, on a book whose flag is set or
  that holds a group: after any number of successful writes, as many calls of
  \<open>cbook_pop_word\<close> have a result and bring the three counts back.
\<close>

lemma cbook_stack_law:
  assumes "cbook_inv s" and "cb_err s = CERR_NONE"
    and "cb_new_group s \<or> 1 \<le> cb_n_groups s"
    and "cbook_writes ws s = Some t" and "cb_err t = CERR_NONE"
  shows "\<exists>v. cbook_pop_words (length ws) t = Some v \<and> cbook_sizes v = cbook_sizes s"
proof -
  have "cbook_inv t"
    using assms(1,4)
  proof (induction ws arbitrary: s)
    case Nil
    then show ?case by simp
  next
    case (Cons a ws)
    obtain mem str where a: "a = (mem, str)" by (cases a)
    from cbook_write_total [OF Cons.prems(1), of mem str] obtain s1
      where w: "cbook_write mem s str = Some s1" by blast
    with Cons.prems(2) have "cbook_writes ws s1 = Some t" by (simp add: a)
    moreover from Cons.prems(1) w have "cbook_inv s1" by (rule cbook_inv_write)
    ultimately show ?case by (intro Cons.IH)
  qed
  from cbook_pop_words_writes [OF assms this assms(5)] obtain v
    where "cbook_pop_words (length ws) t = Some v" and "cb_err v = CERR_NONE"
      and "cb_n_chars v = cb_n_chars s" and "cb_n_words v = cb_n_words s"
      and "cb_n_groups v = cb_n_groups s"
    by auto
  with assms(2) show ?thesis
    by (simp add: cbook_sizes_def cbook_length_def cbook_words_number_def
        cbook_groups_number_def)
qed

text \<open>
  Every public call but \<open>cbook_zero\<close> keeps the condition of the stack law: the flag is
  set or the book holds a group. \<open>cbook_create\<close> establishes it.
\<close>

lemma cbook_flag_create:
  "cb_err (cbook_create mem_obj mem) = CERR_NONE \<Longrightarrow> cb_new_group (cbook_create mem_obj mem)"
  by (auto simp: cbook_create_def cbook_placeholder_instance_def case_prod_beta
      split: if_splits)

lemma cbook_flag_call:
  assumes inv: "cbook_inv s" and pre: "cb_new_group s \<or> 1 \<le> cb_n_groups s"
    and c: "c \<noteq> B_zero" and call: "cbook_call c s = Some (t, r)"
  shows "cb_new_group t \<or> 1 \<le> cb_n_groups t"
proof (cases c)
  case B_clear
  with call pre show ?thesis by (auto simp: cbook_clear_def)
next
  case B_pop_group
  with call pre show ?thesis by (auto simp: cbook_pop_group_def Let_def)
next
  case B_pop_word
  show ?thesis
  proof (cases "cb_err s \<noteq> CERR_NONE \<or> cb_n_words s = 0")
    case True
    with call pre B_pop_word show ?thesis by (auto simp: cbook_pop_word_def)
  next
    case False
    then have e: "cb_err s = CERR_NONE" and w0: "cb_n_words s \<noteq> 0" by simp_all
    have g0: "cb_n_groups s \<noteq> 0"
    proof
      assume "cb_n_groups s = 0"
      from cbook_pop_word_no_group [OF inv e w0 this] call B_pop_word show False by simp
    qed
    from cbook_pop_word_group [OF inv e w0 g0] call B_pop_word g0 show ?thesis
      by (auto split: if_splits)
  qed
next
  case (B_prealloc mem kc kw kg)
  with call pre grow_cbook_frame(3,4) [of mem s "unat kc" "unat kw" "unat kg"] show ?thesis
    by (cases "cb_err s = CERR_NONE") (auto simp: cbook_prealloc_def)
next
  case B_prepare_new_group
  with call pre show ?thesis by (auto simp: cbook_prepare_new_group_def)
next
  case B_repair
  with call pre show ?thesis by (auto simp: cbook_repair_def)
next
  case B_undo_new_group
  with call pre show ?thesis
    by (cases "cb_n_groups s = 0") (auto simp: cbook_undo_new_group_def)
next
  case (B_write mem str)
  with call have w: "cbook_write mem s str = Some t" by auto
  show ?thesis
  proof (cases "cb_err s = CERR_NONE")
    case False
    with w pre show ?thesis by (simp add: cbook_write_def)
  next
    case True
    show ?thesis
    proof (cases "cb_err t = CERR_NONE")
      case ok: True
      from cbook_write_ok [OF inv True w ok] pre show ?thesis by auto
    next
      case False
      from inv True show ?thesis
      proof (cases rule: cbook_write_cases [where str = str and mem = mem])
        case overflow
        with w pre show ?thesis by auto
      next
        case (failed nc b1)
        from failed(2) grow_cbook_frame(3,4) [of mem s nc] have "cb_n_groups b1 = cb_n_groups s"
          and "cb_new_group b1 = cb_new_group s"
          by (metis fst_conv)+
        with failed(3) w pre show ?thesis by simp
      next
        case (written nc b1)
        from written(2) True have "cb_err b1 = CERR_NONE"
          by (metis grow_cbook_err(1) fst_conv snd_conv)
        with written(3) w have "cb_err t = CERR_NONE" by auto
        with False show ?thesis by simp
      qed
    qed
  qed
next
  case B_zero
  with c show ?thesis by simp
qed (use call pre in auto)

text \<open>
  C5 does not hold of the code. The stack law holds on every book whose flag is set or
  that holds a group (\<open>cbook_stack_law\<close>), a condition that \<open>cbook_create\<close> establishes
  and that every call but \<open>cbook_zero\<close> keeps. After one write and \<open>cbook_zero\<close> the
  book is error-free, with no byte, no word, no group and the flag \<open>new_group\<close> unset. A
  write then adds a word that belongs to no group, and \<open>cbook_pop_word\<close> reads
  \<open>groups[n_groups - 1]\<close> with \<open>n_groups = 0\<close>, outside the array: the call has no defined
  result, so the three counts are not brought back. With \<open>cbook_clear\<close> in the place of
  \<open>cbook_zero\<close> the same calls bring the counts back to 0.
\<close>

theorem C5_pop_word_after_zero:
  "map_option snd (cbook_calls
       [B_write (True, True, True) ''a'', B_zero, B_error, B_length, B_words_number,
        B_groups_number, B_write (True, True, True) ''b'', B_error, B_words_number,
        B_groups_number]
       (cbook_create True (True, True, True)))
     = Some [R_void, R_void, R_cerr CERR_NONE, R_size 0, R_size 0,
             R_size 0, R_void, R_cerr CERR_NONE, R_size 1,
             R_size 0]
   \<and> cbook_calls
       [B_write (True, True, True) ''a'', B_zero, B_write (True, True, True) ''b'', B_pop_word]
       (cbook_create True (True, True, True))
     = None
   \<and> map_option snd (cbook_calls
       [B_write (True, True, True) ''a'', B_clear, B_write (True, True, True) ''b'', B_pop_word,
        B_length, B_words_number, B_groups_number]
       (cbook_create True (True, True, True)))
     = Some [R_void, R_void, R_void, R_void, R_size 0, R_size 0, R_size 0]"
  by (simp add: cbook_eval_simps cbook_zero_def cbook_clear_def cbook_length_def
      cbook_words_number_def cbook_groups_number_def cbook_error_def cbook_pop_word_def
      cbook_pop_word_read_def)

end
